theory Spec2Isabelle
  imports
    Complex_Main
    "HOL-Library.AList"
    "HOL-Library.Char_ord"
    "HOL-Library.List_Lexorder"
    "HOL-Library.Multiset"
    "HOL-Library.Product_Lexorder"
begin

section \<open>Text\<close>

text \<open>
  A Python \<open>str\<close> is modelled as a \<^typ>\<open>string\<close>, each \<^typ>\<open>char\<close> standing for
  the code point of the same number (0 to 255). On that range \<open>str.isspace\<close>,
  \<open>str.lower\<close> and the character class \<open>[a-z0-9]\<close> are as defined below.
\<close>

definition isspace :: "char \<Rightarrow> bool" where
  "isspace c =
     (let n = (of_char c :: nat)
      in (9 \<le> n \<and> n \<le> 13) \<or> (28 \<le> n \<and> n \<le> 32) \<or> n = 133 \<or> n = 160)"

text \<open>\<open>s.strip()\<close>: whitespace is dropped at both ends.\<close>

definition strip :: "string \<Rightarrow> string" where
  "strip s = rev (dropWhile isspace (rev (dropWhile isspace s)))"

definition lower_char :: "char \<Rightarrow> char" where
  "lower_char c =
     (let n = (of_char c :: nat)
      in if (65 \<le> n \<and> n \<le> 90) \<or> (192 \<le> n \<and> n \<le> 222 \<and> n \<noteq> 215)
         then char_of (n + 32) else c)"

text \<open>\<open>s.lower()\<close>\<close>

definition lower :: "string \<Rightarrow> string" where
  "lower s = map lower_char s"

text \<open>\<open>s.replace("&", "and")\<close>\<close>

definition replace_amp :: "string \<Rightarrow> string" where
  "replace_amp s = concat (map (\<lambda>c. if c = CHR ''&'' then ''and'' else [c]) s)"

definition is_key_char :: "char \<Rightarrow> bool" where
  "is_key_char c =
     (let n = (of_char c :: nat) in (97 \<le> n \<and> n \<le> 122) \<or> (48 \<le> n \<and> n \<le> 57))"

text \<open>
  \<open>re.sub(r"[^a-z0-9]+", "", s)\<close>: every maximal run of characters outside
  \<open>[a-z0-9]\<close> is replaced by the empty string, which keeps exactly the characters
  of the class, in order.
\<close>

definition re_sub_non_key :: "string \<Rightarrow> string" where
  "re_sub_non_key s = filter is_key_char s"

text \<open>
  \<^verbatim>\<open>
  def normalize_title(value: str) -> str:
      value = (value or "").strip().lower()
      value = value.replace("&", "and")
      return re.sub(r"[^a-z0-9]+", "", value)
  \<close>
\<close>

definition normalize_title :: "string \<Rightarrow> string" where
  "normalize_title v = re_sub_non_key (replace_amp (lower (strip v)))"

section \<open>Data\<close>

record ScholarPub =
  title :: string
  scholar_id :: string
  year :: string
  venue :: string
  source :: string

datatype error = ValueError | KeyError | IndexError

type_synonym path = string

text \<open>
  A row is the dict \<open>csv.DictReader\<close> yields: the header's names mapped to strings
  (\<open>cells\<close>, in insertion order), and for a long row the surplus fields, which the
  reader stores as a list under the key \<open>None\<close> (\<open>rest_fields\<close>).
\<close>

record csv_row =
  cells :: "(string \<times> string) list"
  rest_fields :: "string list option"

type_synonym csv_table = "string list \<times> csv_row list"

type_synonym loaded_csv = "(path \<times> csv_table) list"

type_synonym repo_index = "(string \<times> (path \<times> nat) list) list"

subsection \<open>Python dicts as association lists\<close>

text \<open>\<open>d.get(k, default)\<close>\<close>

definition dict_get :: "('k \<times> 'v) list \<Rightarrow> 'k \<Rightarrow> 'v \<Rightarrow> 'v" where
  "dict_get d k dflt = (case map_of d k of None \<Rightarrow> dflt | Some v \<Rightarrow> v)"

text \<open>\<open>d.setdefault(k, v)\<close>, for its effect on the dict.\<close>

definition dict_setdefault :: "'k \<Rightarrow> 'v \<Rightarrow> ('k \<times> 'v) list \<Rightarrow> ('k \<times> 'v) list" where
  "dict_setdefault k v d = (if k \<in> fst ` set d then d else d @ [(k, v)])"

text \<open>\<open>d[k] = v\<close> is \<^const>\<open>AList.update\<close>: in place when the key is there, at the end otherwise.\<close>

section \<open>Reading and writing tables\<close>

text \<open>
  The input of the model is what \<open>csv.reader\<close> yields for a file: its records, each a
  list of fields (a blank line is the empty list). \<open>DictReader.__next__\<close> turns a record
  into a dict: \<open>dict(zip(fieldnames, row))\<close>, then the surplus fields of a long row under
  the key \<open>None\<close>, or \<open>None\<close> under the remaining names of a short row.
\<close>

definition DictReader_next ::
  "string list \<Rightarrow> string list \<Rightarrow> (string \<times> string option) list \<times> string list option" where
  "DictReader_next fieldnames r =
     (let d = fold (\<lambda>(k, v). AList.update k (Some v)) (zip fieldnames r) [];
          lf = length fieldnames;
          lr = length r
      in if lf < lr then (d, Some (drop lf r))
         else if lf > lr then (fold (\<lambda>k. AList.update k None) (drop lr fieldnames) d, None)
         else (d, None))"

text \<open>\<open>{k: (v or "") for k, v in row.items()}\<close>\<close>

definition or_empty :: "string \<times> string option \<Rightarrow> string \<times> string" where
  "or_empty kv = (fst kv, case snd kv of None \<Rightarrow> [] | Some s \<Rightarrow> s)"

definition read_row :: "string list \<Rightarrow> string list \<Rightarrow> csv_row" where
  "read_row fieldnames r =
     (case DictReader_next fieldnames r of
        (d, rest) \<Rightarrow> \<lparr>cells = map or_empty d, rest_fields = rest\<rparr>)"

text \<open>
  \<^verbatim>\<open>
  def read_csv(path):
      with path.open(newline="", encoding="utf-8") as f:
          reader = csv.DictReader(f)
          headers = list(reader.fieldnames or [])
          rows = [{k: (v or "") for k, v in row.items()} for row in reader]
      return headers, rows
  \<close>
  The first record is the header; blank records are skipped.
\<close>

definition read_csv :: "string list list \<Rightarrow> csv_table" where
  "read_csv records =
     (case records of
        [] \<Rightarrow> ([], [])
      | fieldnames # body \<Rightarrow> (fieldnames, map (read_row fieldnames) (filter (\<lambda>r. r \<noteq> []) body)))"

text \<open>
  \<open>DictWriter._dict_to_list\<close> with \<open>extrasaction="raise"\<close> and \<open>restval=""\<close>:
  a key of the dict that is not a field name raises \<open>ValueError\<close>.
\<close>

definition dict_to_list :: "string list \<Rightarrow> csv_row \<Rightarrow> error + string list" where
  "dict_to_list fieldnames r =
     (if rest_fields r \<noteq> None \<or> (\<exists>k \<in> fst ` set (cells r). k \<notin> set fieldnames)
      then Inl ValueError
      else Inr (map (\<lambda>k. dict_get (cells r) k []) fieldnames))"

text \<open>\<open>writer.writerows(rows)\<close>: the records written, and the error that stopped it.\<close>

fun writerows :: "string list \<Rightarrow> csv_row list \<Rightarrow> error option \<times> string list list" where
  "writerows fieldnames [] = (None, [])"
| "writerows fieldnames (r # rs) =
     (case dict_to_list fieldnames r of
        Inl e \<Rightarrow> (Some e, [])
      | Inr l \<Rightarrow> (case writerows fieldnames rs of (e, ls) \<Rightarrow> (e, l # ls)))"

text \<open>
  \<^verbatim>\<open>
  def write_csv(path, headers, rows):
      with path.open("w", newline="", encoding="utf-8") as f:
          writer = csv.DictWriter(f, fieldnames=headers)
          writer.writeheader()
          writer.writerows(rows)
  \<close>
  The result is the error raised, if any, and the records the file then holds.
\<close>

definition write_csv :: "string list \<Rightarrow> csv_row list \<Rightarrow> error option \<times> string list list" where
  "write_csv headers rows = (case writerows headers rows of (e, ls) \<Rightarrow> (e, headers # ls))"

section \<open>The title index\<close>

text \<open>\<open>by_title.setdefault(norm, []).append(loc)\<close>\<close>

fun setdefault_append :: "'k \<Rightarrow> 'v \<Rightarrow> ('k \<times> 'v list) list \<Rightarrow> ('k \<times> 'v list) list" where
  "setdefault_append k v [] = [(k, [v])]"
| "setdefault_append k v (e # es) =
     (if fst e = k then (k, snd e @ [v]) # es else e # setdefault_append k v es)"

text \<open>The loop over \<open>enumerate(rows)\<close>, from position \<open>idx\<close> on.\<close>

fun index_rows :: "path \<Rightarrow> csv_row list \<Rightarrow> nat \<Rightarrow> repo_index \<Rightarrow> repo_index" where
  "index_rows p [] idx by_title = by_title"
| "index_rows p (r # rs) idx by_title =
     (let norm = normalize_title (dict_get (cells r) ''Title'' [])
      in index_rows p rs (Suc idx)
           (if norm = [] then by_title else setdefault_append norm (p, idx) by_title))"

text \<open>
  The loop over \<open>csv_files\<close>. \<open>disk\<close> gives the records of each file.
\<close>

fun index_files ::
  "(path \<Rightarrow> string list list) \<Rightarrow> path list \<Rightarrow> repo_index \<times> loaded_csv \<Rightarrow> repo_index \<times> loaded_csv" where
  "index_files disk [] acc = acc"
| "index_files disk (p # ps) acc =
     (case acc of (by_title, loaded) \<Rightarrow>
        (case read_csv (disk p) of (headers, rows) \<Rightarrow>
           (let loaded' = AList.update p (headers, rows) loaded
            in if ''Title'' \<notin> set headers then index_files disk ps (by_title, loaded')
               else index_files disk ps (index_rows p rows 0 by_title, loaded'))))"

text \<open>
  \<^verbatim>\<open>
  def build_repo_title_index(csv_files):
      by_title = {}
      loaded = {}
      for path in csv_files:
          headers, rows = read_csv(path)
          loaded[path] = (headers, rows)
          if "Title" not in headers:
              continue
          for idx, row in enumerate(rows):
              norm = normalize_title(row.get("Title", ""))
              if not norm:
                  continue
              by_title.setdefault(norm, []).append((path, idx))
      return by_title, loaded
  \<close>
\<close>

definition build_repo_title_index ::
  "(path \<Rightarrow> string list list) \<Rightarrow> path list \<Rightarrow> repo_index \<times> loaded_csv" where
  "build_repo_title_index disk csv_files = index_files disk csv_files ([], [])"

section \<open>The matcher\<close>

text \<open>
  \<open>find_match\<close> calls \<open>difflib.get_close_matches\<close> of the Python standard library,
  modelled here as the library has it (Python 3.11), with scores as real numbers. The
  similarity is a parameter of \<open>get_close_matches\<close>, of \<open>find_match\<close> and of their
  callers: \<open>ratio a b\<close> for \<open>SequenceMatcher(a=a, b=b).ratio()\<close>. The library's own
  is \<open>SequenceMatcher_ratio\<close> below.
\<close>

definition calculate_ratio :: "nat \<Rightarrow> nat \<Rightarrow> real" where
  "calculate_ratio matches len = (if len \<noteq> 0 then 2 * real matches / real len else 1)"

definition real_quick_ratio :: "string \<Rightarrow> string \<Rightarrow> real" where
  "real_quick_ratio a b = calculate_ratio (min (length a) (length b)) (length a + length b)"

text \<open>
  The loop of \<open>quick_ratio\<close> over \<open>a\<close>: \<open>avail\<close> maps an element to the number of its
  occurrences in \<open>b\<close> less the number of times it was seen in \<open>a\<close>.
\<close>

fun quick_matches :: "string \<Rightarrow> string \<Rightarrow> (char \<times> int) list \<Rightarrow> nat \<Rightarrow> nat" where
  "quick_matches b [] avail matches = matches"
| "quick_matches b (elt # a) avail matches =
     (let numb = (case map_of avail elt of Some n \<Rightarrow> n | None \<Rightarrow> int (count_list b elt))
      in quick_matches b a (AList.update elt (numb - 1) avail)
           (if numb > 0 then matches + 1 else matches))"

definition quick_ratio :: "string \<Rightarrow> string \<Rightarrow> real" where
  "quick_ratio a b = calculate_ratio (quick_matches b a [] 0) (length a + length b)"

subsection \<open>\<open>SequenceMatcher.ratio\<close>\<close>

text \<open>
  \<open>b2j\<close>, as \<open>__chain_b\<close> builds it with \<open>isjunk=None\<close> and \<open>autojunk=True\<close>: the
  positions of an element in \<open>b\<close>, in increasing order, and none for an element that is
  popular in a \<open>b\<close> of 200 elements or more. \<open>b2j.get(elt, [])\<close> is \<open>b2j b elt\<close>.
\<close>

definition indices_of :: "string \<Rightarrow> char \<Rightarrow> nat list" where
  "indices_of b elt = filter (\<lambda>j. b ! j = elt) [0..<length b]"

definition b2j :: "string \<Rightarrow> char \<Rightarrow> nat list" where
  "b2j b elt =
     (let idxs = indices_of b elt; n = length b
      in if n \<ge> 200 \<and> length idxs > n div 100 + 1 then [] else idxs)"

text \<open>A match \<open>(i, j, k)\<close>: \<open>a[i:i+k] == b[j:j+k]\<close>.\<close>

type_synonym match = "nat \<times> nat \<times> nat"

text \<open>
  The inner loop of \<open>find_longest_match\<close>, over the positions \<open>j\<close> of \<open>a[i]\<close> in \<open>b\<close>:
  \<^verbatim>\<open>
            for j in b2j.get(a[i], nothing):
                if j < blo:
                    continue
                if j >= bhi:
                    break
                k = newj2len[j] = j2lenget(j-1, 0) + 1
                if k > bestsize:
                    besti, bestj, bestsize = i-k+1, j-k+1, k
  \<close>
  (\<open>j2len\<close> has no key \<open>-1\<close>, and \<open>k\<close> is at most \<open>i + 1\<close> and \<open>j + 1\<close>.)
\<close>

fun match_row ::
  "nat list \<Rightarrow> nat \<Rightarrow> nat \<Rightarrow> nat \<Rightarrow> (nat \<times> nat) list \<Rightarrow> (nat \<times> nat) list \<Rightarrow> match \<Rightarrow>
     (nat \<times> nat) list \<times> match" where
  "match_row [] i blo bhi j2len newj2len best = (newj2len, best)"
| "match_row (j # js) i blo bhi j2len newj2len best =
     (if j < blo then match_row js i blo bhi j2len newj2len best
      else if j \<ge> bhi then (newj2len, best)
      else let k = (if j = 0 then 0 else dict_get j2len (j - 1) 0) + 1
           in match_row js i blo bhi j2len (AList.update j k newj2len)
                (if k > snd (snd best) then (i + 1 - k, j + 1 - k, k) else best))"

text \<open>The outer loop, \<open>for i in range(alo, ahi)\<close>, with \<open>j2len = newj2len\<close> after each row.\<close>

fun match_rows ::
  "string \<Rightarrow> string \<Rightarrow> nat list \<Rightarrow> nat \<Rightarrow> nat \<Rightarrow> (nat \<times> nat) list \<Rightarrow> match \<Rightarrow> match" where
  "match_rows a b [] blo bhi j2len best = best"
| "match_rows a b (i # is) blo bhi j2len best =
     (case match_row (b2j b (a ! i)) i blo bhi j2len [] best of
        (newj2len, best') \<Rightarrow> match_rows a b is blo bhi newj2len best')"

text \<open>
  The two loops that extend the best match by equal elements at each end. With
  \<open>isjunk=None\<close> no element is junk, so \<open>not isbjunk(...)\<close> holds, and the two loops over
  junk that follow them in the library never run.
\<close>

function extend_left :: "string \<Rightarrow> string \<Rightarrow> nat \<Rightarrow> nat \<Rightarrow> match \<Rightarrow> match" where
  "extend_left a b alo blo (besti, bestj, bestsize) =
     (if besti > alo \<and> bestj > blo \<and> a ! (besti - 1) = b ! (bestj - 1)
      then extend_left a b alo blo (besti - 1, bestj - 1, bestsize + 1)
      else (besti, bestj, bestsize))"
  by pat_completeness auto
termination
  by (relation "measure (\<lambda>(a, b, alo, blo, besti, bestj, bestsize). besti)") auto

declare extend_left.simps [simp del]

function extend_right :: "string \<Rightarrow> string \<Rightarrow> nat \<Rightarrow> nat \<Rightarrow> match \<Rightarrow> match" where
  "extend_right a b ahi bhi (besti, bestj, bestsize) =
     (if besti + bestsize < ahi \<and> bestj + bestsize < bhi \<and>
         a ! (besti + bestsize) = b ! (bestj + bestsize)
      then extend_right a b ahi bhi (besti, bestj, bestsize + 1)
      else (besti, bestj, bestsize))"
  by pat_completeness auto
termination
  by (relation "measure (\<lambda>(a, b, ahi, bhi, besti, bestj, bestsize). ahi - (besti + bestsize))") auto

declare extend_right.simps [simp del]

definition find_longest_match :: "string \<Rightarrow> string \<Rightarrow> nat \<Rightarrow> nat \<Rightarrow> nat \<Rightarrow> nat \<Rightarrow> match" where
  "find_longest_match a b alo ahi blo bhi =
     extend_right a b ahi bhi
       (extend_left a b alo blo
          (match_rows a b [alo..<ahi] blo bhi [] (alo, blo, 0)))"

text \<open>
  The loop of \<open>get_matching_blocks\<close>; the head of the list is the end of the library's
  \<open>queue\<close>, which \<open>queue.pop()\<close> takes:
  \<^verbatim>\<open>
        while queue:
            alo, ahi, blo, bhi = queue.pop()
            i, j, k = x = self.find_longest_match(alo, ahi, blo, bhi)
            if k:
                matching_blocks.append(x)
                if alo < i and blo < j:
                    queue.append((alo, i, blo, j))
                if i+k < ahi and j+k < bhi:
                    queue.append((i+k, ahi, j+k, bhi))
  \<close>
  It terminates because a match lies inside the range it was looked for in, which is
  proved below.
\<close>

function matching_loop ::
  "string \<Rightarrow> string \<Rightarrow> (nat \<times> nat \<times> nat \<times> nat) list \<Rightarrow> match list \<Rightarrow> match list" where
  "matching_loop a b [] matching_blocks = matching_blocks"
| "matching_loop a b ((alo, ahi, blo, bhi) # queue) matching_blocks =
     (case find_longest_match a b alo ahi blo bhi of
        (i, j, k) \<Rightarrow>
          if k \<noteq> 0
          then matching_loop a b
                 ((if i + k < ahi \<and> j + k < bhi then [(i + k, ahi, j + k, bhi)] else []) @
                  (if alo < i \<and> blo < j then [(alo, i, blo, j)] else []) @ queue)
                 (matching_blocks @ [(i, j, k)])
          else matching_loop a b queue matching_blocks)"
  by pat_completeness auto

text \<open>The loop that merges adjacent blocks, from \<open>(i1, j1, k1)\<close> on.\<close>

fun collapse :: "match list \<Rightarrow> match \<Rightarrow> match list \<Rightarrow> match list" where
  "collapse [] (i1, j1, k1) non_adjacent =
     (if k1 \<noteq> 0 then non_adjacent @ [(i1, j1, k1)] else non_adjacent)"
| "collapse ((i2, j2, k2) # rest) (i1, j1, k1) non_adjacent =
     (if i1 + k1 = i2 \<and> j1 + k1 = j2 then collapse rest (i1, j1, k1 + k2) non_adjacent
      else collapse rest (i2, j2, k2)
             (if k1 \<noteq> 0 then non_adjacent @ [(i1, j1, k1)] else non_adjacent))"

text \<open>\<open>get_matching_blocks\<close>: the blocks sorted, adjacent ones merged, and the final dummy.\<close>

definition get_matching_blocks :: "string \<Rightarrow> string \<Rightarrow> match list" where
  "get_matching_blocks a b =
     collapse (sort (matching_loop a b [(0, length a, 0, length b)] [])) (0, 0, 0) [] @
     [(length a, length b, 0)]"

text \<open>\<open>ratio\<close>: \<open>_calculate_ratio(sum(triple[-1] for triple in blocks), len(a) + len(b))\<close>\<close>

definition SequenceMatcher_ratio :: "string \<Rightarrow> string \<Rightarrow> real" where
  "SequenceMatcher_ratio a b =
     calculate_ratio (sum_list (map (\<lambda>triple. snd (snd triple)) (get_matching_blocks a b)))
       (length a + length b)"

subsection \<open>\<open>get_close_matches\<close> and \<open>find_match\<close>\<close>

text \<open>Python's \<open>max\<close> of a non-empty sequence: the first of the greatest elements.\<close>

fun py_max :: "'a::linorder \<Rightarrow> 'a list \<Rightarrow> 'a" where
  "py_max m [] = m"
| "py_max m (x # xs) = py_max (if x > m then x else m) xs"

text \<open>\<open>heapq.nlargest(1, result)\<close>\<close>

definition nlargest1 :: "'a::linorder list \<Rightarrow> 'a list" where
  "nlargest1 result = (case result of [] \<Rightarrow> [] | x # xs \<Rightarrow> [py_max x xs])"

text \<open>
  The test \<open>get_close_matches\<close> applies to a candidate \<open>x\<close>:
  \<open>s.real_quick_ratio() >= cutoff and s.quick_ratio() >= cutoff and s.ratio() >= cutoff\<close>,
  for the matcher \<open>s\<close> with \<open>a = x\<close> and \<open>b = word\<close>.
\<close>

definition close_enough :: "(string \<Rightarrow> string \<Rightarrow> real) \<Rightarrow> string \<Rightarrow> real \<Rightarrow> string \<Rightarrow> bool" where
  "close_enough ratio word cutoff x =
     (real_quick_ratio x word \<ge> cutoff \<and> quick_ratio x word \<ge> cutoff \<and> ratio x word \<ge> cutoff)"

text \<open>
  \<open>difflib.get_close_matches(word, possibilities, n=1, cutoff=cutoff)\<close>: the scored
  candidates are pairs \<open>(score, x)\<close>, compared as Python compares tuples.
\<close>

definition get_close_matches ::
  "(string \<Rightarrow> string \<Rightarrow> real) \<Rightarrow> string \<Rightarrow> string list \<Rightarrow> real \<Rightarrow> error + string list" where
  "get_close_matches ratio word possibilities cutoff =
     (if \<not> (0 \<le> cutoff \<and> cutoff \<le> 1) then Inl ValueError
      else Inr (map snd (nlargest1
             (map (\<lambda>x. (ratio x word, x))
                (filter (close_enough ratio word cutoff) possibilities)))))"

text \<open>
  \<^verbatim>\<open>
  def find_match(scholar_norm, repo_keys, cutoff):
      if scholar_norm in repo_keys:
          return scholar_norm
      maybe = difflib.get_close_matches(scholar_norm, repo_keys, n=1, cutoff=cutoff)
      return maybe[0] if maybe else None
  \<close>
\<close>

definition find_match ::
  "(string \<Rightarrow> string \<Rightarrow> real) \<Rightarrow> string \<Rightarrow> string list \<Rightarrow> real \<Rightarrow> error + string option" where
  "find_match ratio scholar_norm repo_keys cutoff =
     (if scholar_norm \<in> set repo_keys then Inr (Some scholar_norm)
      else case get_close_matches ratio scholar_norm repo_keys cutoff of
             Inl e \<Rightarrow> Inl e
           | Inr maybe \<Rightarrow> Inr (case maybe of [] \<Rightarrow> None | m # _ \<Rightarrow> Some m))"

text \<open>The truth value of a \<open>str | None\<close>, as \<open>if found:\<close> and \<open>if not match:\<close> test it.\<close>

definition truthy :: "string option \<Rightarrow> bool" where
  "truthy m = (case m of None \<Rightarrow> False | Some s \<Rightarrow> s \<noteq> [])"

section \<open>Reconciliation\<close>

text \<open>
  The comparison loop of \<open>main\<close>, on the counter and the list it builds:
  \<^verbatim>\<open>
      missing = []
      matched = 0
      for pub in scholar_pubs:
          norm = normalize_title(pub.title)
          if not norm:
              continue
          found = find_match(norm, repo_keys, args.fuzzy_cutoff)
          if found:
              matched += 1
          else:
              missing.append(pub)
  \<close>
\<close>

fun main_diff ::
  "(string \<Rightarrow> string \<Rightarrow> real) \<Rightarrow> string list \<Rightarrow> real \<Rightarrow> ScholarPub list \<Rightarrow>
     nat \<times> ScholarPub list \<Rightarrow> error + nat \<times> ScholarPub list" where
  "main_diff ratio repo_keys cutoff [] acc = Inr acc"
| "main_diff ratio repo_keys cutoff (pub # pubs) acc =
     (case acc of (matched, missing) \<Rightarrow>
        (let norm = normalize_title (title pub)
         in if norm = [] then main_diff ratio repo_keys cutoff pubs (matched, missing)
            else case find_match ratio norm repo_keys cutoff of
                   Inl e \<Rightarrow> Inl e
                 | Inr found \<Rightarrow>
                     if truthy found
                     then main_diff ratio repo_keys cutoff pubs (matched + 1, missing)
                     else main_diff ratio repo_keys cutoff pubs (matched, missing @ [pub])))"

text \<open>
  The first statements of the inner loop of \<open>update_scholar_ids\<close>:
  \<^verbatim>\<open>
              if "Scholar ID" not in headers:
                  headers.append("Scholar ID")
                  for row in rows:
                      row.setdefault("Scholar ID", "")
  \<close>
\<close>

definition ensure_column :: "csv_table \<Rightarrow> csv_table" where
  "ensure_column t =
     (case t of (headers, rows) \<Rightarrow>
        if ''Scholar ID'' \<notin> set headers
        then (headers @ [''Scholar ID''],
              map (\<lambda>r. r\<lparr>cells := dict_setdefault ''Scholar ID'' [] (cells r)\<rparr>) rows)
        else (headers, rows))"

text \<open>\<open>rows[row_idx]["Scholar ID"] = sid\<close>\<close>

definition set_scholar_id :: "string \<Rightarrow> nat \<Rightarrow> csv_row list \<Rightarrow> csv_row list" where
  "set_scholar_id sid row_idx rows =
     rows[row_idx := (rows ! row_idx)\<lparr>cells := AList.update ''Scholar ID'' sid (cells (rows ! row_idx))\<rparr>]"

text \<open>
  The state of \<open>update_scholar_ids\<close> is the counter \<open>updated_cells\<close> and the tables, which
  the function mutates in place: a step returns the state it leaves, also when it raises.
  One turn of the inner loop, for \<open>(path, row_idx)\<close>:
  \<^verbatim>\<open>
              headers, rows = loaded_csv[path]
              if "Scholar ID" not in headers: ...
              current = rows[row_idx].get("Scholar ID", "").strip()
              if current != p.scholar_id:
                  rows[row_idx]["Scholar ID"] = p.scholar_id
                  updated_cells += 1
  \<close>
\<close>

definition update_row ::
  "string \<Rightarrow> path \<times> nat \<Rightarrow> nat \<times> loaded_csv \<Rightarrow> error option \<times> nat \<times> loaded_csv" where
  "update_row sid loc st =
     (case loc of (p, row_idx) \<Rightarrow>
      case st of (updated_cells, loaded) \<Rightarrow>
        (case map_of loaded p of
           None \<Rightarrow> (Some KeyError, st)
         | Some t \<Rightarrow>
             (case ensure_column t of (headers, rows) \<Rightarrow>
                if \<not> row_idx < length rows
                then (Some IndexError, updated_cells, AList.update p (headers, rows) loaded)
                else if strip (dict_get (cells (rows ! row_idx)) ''Scholar ID'' []) \<noteq> sid
                then (None, updated_cells + 1,
                      AList.update p (headers, set_scholar_id sid row_idx rows) loaded)
                else (None, updated_cells, AList.update p (headers, rows) loaded))))"

text \<open>The inner loop, over the locations of the matched key.\<close>

fun update_rows ::
  "string \<Rightarrow> (path \<times> nat) list \<Rightarrow> nat \<times> loaded_csv \<Rightarrow> error option \<times> nat \<times> loaded_csv" where
  "update_rows sid [] st = (None, st)"
| "update_rows sid (loc # locs) st =
     (case update_row sid loc st of
        (Some e, st') \<Rightarrow> (Some e, st')
      | (None, st') \<Rightarrow> update_rows sid locs st')"

text \<open>The outer loop, over the Scholar publications.\<close>

fun update_pubs ::
  "(string \<Rightarrow> string \<Rightarrow> real) \<Rightarrow> repo_index \<Rightarrow> string list \<Rightarrow> real \<Rightarrow> ScholarPub list \<Rightarrow>
     nat \<times> loaded_csv \<Rightarrow> error option \<times> nat \<times> loaded_csv" where
  "update_pubs ratio repo_index repo_keys cutoff [] st = (None, st)"
| "update_pubs ratio repo_index repo_keys cutoff (p # pubs) st =
     (if scholar_id p = [] then update_pubs ratio repo_index repo_keys cutoff pubs st
      else case find_match ratio (normalize_title (title p)) repo_keys cutoff of
             Inl e \<Rightarrow> (Some e, st)
           | Inr None \<Rightarrow> update_pubs ratio repo_index repo_keys cutoff pubs st
           | Inr (Some match) \<Rightarrow>
               if match = [] then update_pubs ratio repo_index repo_keys cutoff pubs st
               else (case map_of repo_index match of
                       None \<Rightarrow> (Some KeyError, st)
                     | Some locs \<Rightarrow>
                         (case update_rows (scholar_id p) locs st of
                            (Some e, st') \<Rightarrow> (Some e, st')
                          | (None, st') \<Rightarrow>
                              update_pubs ratio repo_index repo_keys cutoff pubs st')))"

text \<open>
  \<^verbatim>\<open>
  def update_scholar_ids(loaded_csv, repo_index, scholar_pubs, cutoff):
      updated_cells = 0
      repo_keys = list(repo_index.keys())
      for p in scholar_pubs:
          if not p.scholar_id:
              continue
          match = find_match(normalize_title(p.title), repo_keys, cutoff)
          if not match:
              continue
          for path, row_idx in repo_index[match]:
              ...
      return updated_cells
  \<close>
  The result is the count returned (or the exception raised) and the tables as the
  call leaves them.
\<close>

definition update_scholar_ids ::
  "(string \<Rightarrow> string \<Rightarrow> real) \<Rightarrow> loaded_csv \<Rightarrow> repo_index \<Rightarrow> ScholarPub list \<Rightarrow> real \<Rightarrow>
     (error + nat) \<times> loaded_csv" where
  "update_scholar_ids ratio loaded repo_index scholar_pubs cutoff =
     (case update_pubs ratio repo_index (map fst repo_index) cutoff scholar_pubs (0, loaded) of
        (None, updated_cells, loaded') \<Rightarrow> (Inr updated_cells, loaded')
      | (Some e, updated_cells, loaded') \<Rightarrow> (Inl e, loaded'))"

text \<open>
  What \<open>main\<close> does with the tables after \<open>update_scholar_ids\<close>:
  \<^verbatim>\<open>
        for path, (headers, rows) in loaded_csv.items():
            if "Scholar ID" in headers:
                write_csv(path, headers, rows)
  \<close>
  The result is the exception raised, if any, and the files written, with the records
  each then holds.
\<close>

fun main_write_back :: "loaded_csv \<Rightarrow> error option \<times> (path \<times> string list list) list" where
  "main_write_back [] = (None, [])"
| "main_write_back ((p, headers, rows) # rest) =
     (if ''Scholar ID'' \<in> set headers
      then (case write_csv headers rows of
              (Some e, recs) \<Rightarrow> (Some e, [(p, recs)])
            | (None, recs) \<Rightarrow>
                (case main_write_back rest of (e, ws) \<Rightarrow> (e, (p, recs) # ws)))
      else main_write_back rest)"

section \<open>Notions the properties are stated with\<close>

text \<open>An external record has a key when its normalized title is not empty.\<close>

definition has_title_key :: "ScholarPub \<Rightarrow> bool" where
  "has_title_key p = (normalize_title (title p) \<noteq> [])"

text \<open>What \<open>if found:\<close> decides for a record in the comparison loop of \<open>main\<close>.\<close>

definition pub_found ::
  "(string \<Rightarrow> string \<Rightarrow> real) \<Rightarrow> string list \<Rightarrow> real \<Rightarrow> ScholarPub \<Rightarrow> bool" where
  "pub_found ratio repo_keys cutoff p =
     (case find_match ratio (normalize_title (title p)) repo_keys cutoff of
        Inl e \<Rightarrow> False
      | Inr found \<Rightarrow> truthy found)"

text \<open>
  What \<open>difflib\<close> documents of \<open>quick_ratio\<close> and \<open>real_quick_ratio\<close>: each is an upper
  bound on \<open>ratio\<close>.
\<close>

definition bounded_ratio :: "(string \<Rightarrow> string \<Rightarrow> real) \<Rightarrow> bool" where
  "bounded_ratio ratio =
     (\<forall>a b. ratio a b \<le> quick_ratio a b \<and> ratio a b \<le> real_quick_ratio a b)"

text \<open>
  A location of the index is sound for a key when it names a loaded table whose header has
  the \<open>Title\<close> field and a row of it whose title normalizes to the key.
\<close>

definition loc_ok :: "loaded_csv \<Rightarrow> string \<Rightarrow> path \<times> nat \<Rightarrow> bool" where
  "loc_ok loaded k loc =
     (case loc of (p, idx) \<Rightarrow>
        (case map_of loaded p of
           None \<Rightarrow> False
         | Some (headers, rows) \<Rightarrow>
             ''Title'' \<in> set headers \<and> idx < length rows \<and>
             normalize_title (dict_get (cells (rows ! idx)) ''Title'' []) = k))"

text \<open>
  A well-formed index: the keys are distinct (it is a dict) and non-empty, and every
  location listed under a key is sound for it.
\<close>

definition index_wf :: "repo_index \<Rightarrow> loaded_csv \<Rightarrow> bool" where
  "index_wf by_title loaded =
     (distinct (map fst by_title) \<and>
      (\<forall>e \<in> set by_title. fst e \<noteq> [] \<and> snd e \<noteq> [] \<and> (\<forall>loc \<in> set (snd e). loc_ok loaded (fst e) loc)))"

text \<open>The loaded tables are what \<open>read_csv\<close> gives for the files.\<close>

definition loaded_from :: "(path \<Rightarrow> string list list) \<Rightarrow> loaded_csv \<Rightarrow> bool" where
  "loaded_from disk loaded = (\<forall>p t. map_of loaded p = Some t \<longrightarrow> t = read_csv (disk p))"

text \<open>
  What an update leaves of a row: the surplus fields, every cell but that of
  \<open>Scholar ID\<close> (names, values and order), and the \<open>Scholar ID\<close> cell if it was there.
\<close>

definition row_kept :: "csv_row \<Rightarrow> csv_row \<Rightarrow> bool" where
  "row_kept r r' =
     (rest_fields r' = rest_fields r \<and>
      filter (\<lambda>kv. fst kv \<noteq> ''Scholar ID'') (cells r') =
        filter (\<lambda>kv. fst kv \<noteq> ''Scholar ID'') (cells r) \<and>
      (''Scholar ID'' \<in> fst ` set (cells r) \<longrightarrow> ''Scholar ID'' \<in> fst ` set (cells r')))"

text \<open>
  What an update leaves of a table: the header, but for \<open>Scholar ID\<close> added at its end,
  and the rows, each at its position.
\<close>

definition table_kept :: "csv_table \<Rightarrow> csv_table \<Rightarrow> bool" where
  "table_kept t t' =
     ((fst t' = fst t \<or> (''Scholar ID'' \<notin> set (fst t) \<and> fst t' = fst t @ [''Scholar ID''])) \<and>
      list_all2 row_kept (snd t) (snd t'))"

text \<open>What an update leaves of the tables: the paths, in order, each with its table.\<close>

definition loaded_kept :: "loaded_csv \<Rightarrow> loaded_csv \<Rightarrow> bool" where
  "loaded_kept loaded loaded' =
     list_all2 (\<lambda>e e'. fst e' = fst e \<and> table_kept (snd e) (snd e')) loaded loaded'"

text \<open>A table whose header has \<open>Scholar ID\<close> has that cell in every row.\<close>

definition column_complete :: "csv_table \<Rightarrow> bool" where
  "column_complete t =
     (''Scholar ID'' \<in> set (fst t) \<longrightarrow>
        (\<forall>r \<in> set (snd t). \<exists>v. map_of (cells r) ''Scholar ID'' = Some v))"

text \<open>
  The rows \<open>update_scholar_ids\<close> visits for a record: none when the record has no
  identifier or no match, the locations of the matched key otherwise; or the exception
  the lookup raises.
\<close>

definition pub_locs ::
  "(string \<Rightarrow> string \<Rightarrow> real) \<Rightarrow> repo_index \<Rightarrow> string list \<Rightarrow> real \<Rightarrow> ScholarPub \<Rightarrow>
     error + (path \<times> nat) list" where
  "pub_locs ratio repo_index repo_keys cutoff p =
     (if scholar_id p = [] then Inr []
      else case find_match ratio (normalize_title (title p)) repo_keys cutoff of
             Inl e \<Rightarrow> Inl e
           | Inr None \<Rightarrow> Inr []
           | Inr (Some match) \<Rightarrow>
               if match = [] then Inr []
               else (case map_of repo_index match of
                       None \<Rightarrow> Inl KeyError
                     | Some locs \<Rightarrow> Inr locs))"

text \<open>The cells a record asks for: each row it is sent to, with its identifier.\<close>

definition pub_writes ::
  "(string \<Rightarrow> string \<Rightarrow> real) \<Rightarrow> repo_index \<Rightarrow> real \<Rightarrow> ScholarPub \<Rightarrow> ((path \<times> nat) \<times> string) list" where
  "pub_writes ratio repo_index cutoff p =
     (case pub_locs ratio repo_index (map fst repo_index) cutoff p of
        Inl e \<Rightarrow> []
      | Inr locs \<Rightarrow> map (\<lambda>loc. (loc, scholar_id p)) locs)"

text \<open>No two pairs of the set give one first component two second components.\<close>

definition functional :: "('a \<times> 'b) set \<Rightarrow> bool" where
  "functional W = (\<forall>w \<in> W. \<forall>w' \<in> W. fst w = fst w' \<longrightarrow> snd w = snd w')"

text \<open>Any two records of the feed that are sent to the same row carry the same identifier.\<close>

definition consistent_ids ::
  "(string \<Rightarrow> string \<Rightarrow> real) \<Rightarrow> repo_index \<Rightarrow> real \<Rightarrow> ScholarPub list \<Rightarrow> bool" where
  "consistent_ids ratio repo_index cutoff pubs =
     functional (set (concat (map (pub_writes ratio repo_index cutoff) pubs)))"

text \<open>
  The identifiers have no whitespace at either end, as \<open>load_scholar_from_json\<close> and
  \<open>load_scholar_live\<close> produce them (\<open>str(...).strip()\<close>).
\<close>

definition trimmed_ids :: "ScholarPub list \<Rightarrow> bool" where
  "trimmed_ids pubs = (\<forall>p \<in> set pubs. strip (scholar_id p) = scholar_id p)"

text \<open>
  A cell is settled on an identifier when its table has the \<open>Scholar ID\<close> field and the
  row holds that identifier there, up to surrounding whitespace.
\<close>

definition settled :: "loaded_csv \<Rightarrow> (path \<times> nat) \<times> string \<Rightarrow> bool" where
  "settled l w =
     (case w of ((p, i), sid) \<Rightarrow>
        (case map_of l p of
           None \<Rightarrow> False
         | Some (headers, rows) \<Rightarrow>
             ''Scholar ID'' \<in> set headers \<and> i < length rows \<and>
             strip (dict_get (cells (rows ! i)) ''Scholar ID'' []) = sid))"

text \<open>
  What \<open>find_longest_match\<close> returns for a range: the start of the range with size 0,
  or a block of equal elements inside the range.
\<close>

definition block_ok :: "string \<Rightarrow> string \<Rightarrow> nat \<Rightarrow> nat \<Rightarrow> nat \<Rightarrow> nat \<Rightarrow> match \<Rightarrow> bool" where
  "block_ok a b alo ahi blo bhi m =
     (case m of (i, j, k) \<Rightarrow>
        (i = alo \<and> j = blo \<and> k = 0) \<or>
        (0 < k \<and> alo \<le> i \<and> i + k \<le> ahi \<and> blo \<le> j \<and> j + k \<le> bhi \<and>
         (\<forall>d<k. a ! (i + d) = b ! (j + d))))"

text \<open>
  The invariant of \<open>j2len\<close> before row \<open>i\<close>: an entry \<open>j \<mapsto> k\<close> is a block of \<open>k\<close> equal
  elements that ends at \<open>a[i-1]\<close> and \<open>b[j]\<close>, inside the range.
\<close>

definition row_ok :: "string \<Rightarrow> string \<Rightarrow> nat \<Rightarrow> nat \<Rightarrow> nat \<Rightarrow> nat \<Rightarrow> (nat \<times> nat) list \<Rightarrow> bool" where
  "row_ok a b alo blo bhi i j2len =
     (\<forall>j k. map_of j2len j = Some k \<longrightarrow>
        0 < k \<and> k \<le> i - alo \<and> k \<le> j + 1 - blo \<and> j < bhi \<and>
        (\<forall>d<k. a ! (i - k + d) = b ! (j + 1 - k + d)))"

text \<open>\<open>xs[lo:hi]\<close>\<close>

definition py_slice :: "'a list \<Rightarrow> nat \<Rightarrow> nat \<Rightarrow> 'a list" where
  "py_slice xs lo hi = take (hi - lo) (drop lo xs)"

text \<open>The elements two ranges have in common, as multisets.\<close>

definition range_cap :: "string \<Rightarrow> string \<Rightarrow> nat \<times> nat \<times> nat \<times> nat \<Rightarrow> nat" where
  "range_cap a b q =
     (case q of (alo, ahi, blo, bhi) \<Rightarrow>
        size (mset (py_slice a alo ahi) \<inter># mset (py_slice b blo bhi)))"

text \<open>The sum of the sizes of the blocks.\<close>

definition total_size :: "match list \<Rightarrow> nat" where
  "total_size blocks = sum_list (map (\<lambda>triple. snd (snd triple)) blocks)"

text \<open>A range of the queue lies inside the two sequences.\<close>

definition range_valid :: "string \<Rightarrow> string \<Rightarrow> nat \<times> nat \<times> nat \<times> nat \<Rightarrow> bool" where
  "range_valid a b q = (case q of (alo, ahi, blo, bhi) \<Rightarrow> ahi \<le> length a \<and> bhi \<le> length b)"

text \<open>What \<open>quick_ratio\<close> reads as \<open>numb\<close> for an element.\<close>

definition avail_of :: "string \<Rightarrow> (char \<times> int) list \<Rightarrow> char \<Rightarrow> int" where
  "avail_of b avail elt = (case map_of avail elt of Some n \<Rightarrow> n | None \<Rightarrow> int (count_list b elt))"

subsection \<open>Example data\<close>

definition pubA :: ScholarPub where
  "pubA = \<lparr>title = ''Graph coloring revisited!'', scholar_id = ''abc123'', year = ''2020'',
            venue = [], source = ''json''\<rparr>"

definition pubB :: ScholarPub where
  "pubB = \<lparr>title = ''Completely Unrelated Paper'', scholar_id = ''zzz'', year = [],
            venue = [], source = ''json''\<rparr>"

definition pubC :: ScholarPub where
  "pubC = \<lparr>title = ''?!'', scholar_id = ''q1'', year = [], venue = [], source = ''json''\<rparr>"

definition example_disk :: "path \<Rightarrow> string list list" where
  "example_disk p =
     (if p = ''a.csv''
      then [[''Title'', ''Year''],
            [''Graph Coloring Revisited'', ''2020''],
            [''Sparse Matrix Inversion'']]
      else if p = ''b.csv''
      then [[''Year'', ''Title''], [''2020'', ''graph coloring: revisited'']]
      else [])"

definition example_index :: repo_index where
  "example_index = fst (build_repo_title_index example_disk [''a.csv'', ''b.csv''])"

definition example_loaded :: loaded_csv where
  "example_loaded = snd (build_repo_title_index example_disk [''a.csv'', ''b.csv''])"

definition example_updated :: loaded_csv where
  "example_updated =
     snd (update_scholar_ids SequenceMatcher_ratio example_loaded example_index [pubA, pubB] (94/100))"

definition pubD :: ScholarPub where
  "pubD = \<lparr>title = ''Graph Coloring, Revisited'', scholar_id = ''def456'', year = ''2021'',
            venue = [], source = ''json''\<rparr>"

definition pubU :: ScholarPub where
  "pubU = \<lparr>title = ''Sparse Matrix Inversion'', scholar_id = ''s1 '', year = [], venue = [],
            source = ''manual''\<rparr>"

definition long_row_disk :: "path \<Rightarrow> string list list" where
  "long_row_disk p = [[''Title''], [''Graph Coloring Revisited'', ''2020'']]"

section \<open>Properties of \<open>SequenceMatcher\<close>\<close>

lemma b2j_elem: "j \<in> set (b2j b e) \<Longrightarrow> b ! j = e"
  by (auto simp: b2j_def indices_of_def Let_def split: if_splits)

lemma match_row_ok:
  assumes "row_ok a b alo blo bhi i j2len" "row_ok a b alo blo bhi (Suc i) newj2len"
    and "block_ok a b alo ahi blo bhi best" and "alo \<le> i" "i < ahi"
    and "\<forall>j \<in> set js. b ! j = a ! i"
    and "match_row js i blo bhi j2len newj2len best = (new', best')"
  shows "row_ok a b alo blo bhi (Suc i) new' \<and> block_ok a b alo ahi blo bhi best'"
  using assms
proof (induction js arbitrary: newj2len best)
  case Nil
  then show ?case by simp
next
  case (Cons j js)
  show ?case
  proof (cases "j < blo")
    case True
    with Cons.prems show ?thesis by (intro Cons.IH [of newj2len best]) simp_all
  next
    case nlo: False
    show ?thesis
    proof (cases "j \<ge> bhi")
      case True
      with nlo Cons.prems show ?thesis by simp
    next
      case False
      define k0 where "k0 = (if j = 0 then 0 else dict_get j2len (j - 1) 0)"
      define k where "k = k0 + 1"
      have ij: "b ! j = a ! i" using Cons.prems(6) by simp
      have k0: "k0 \<le> i - alo \<and> k0 \<le> j - blo \<and> (\<forall>d<k0. a ! (i - k0 + d) = b ! (j - k0 + d))"
      proof (cases "j = 0 \<or> map_of j2len (j - 1) = None")
        case True
        then have "k0 = 0" by (auto simp: k0_def dict_get_def)
        then show ?thesis by simp
      next
        case False
        then obtain v where v: "map_of j2len (j - 1) = Some v" and j0: "j \<noteq> 0" by auto
        then have kv: "k0 = v" by (simp add: k0_def dict_get_def)
        from Cons.prems(1) [unfolded row_ok_def, rule_format, OF v]
        have r: "v \<le> i - alo" "v \<le> j - 1 + 1 - blo"
          "\<forall>d<v. a ! (i - v + d) = b ! (j - 1 + 1 - v + d)" by simp_all
        from j0 have "j - 1 + 1 = j" by simp
        with r show ?thesis unfolding kv by simp
      qed
      have content: "\<forall>d<k. a ! (i + 1 - k + d) = b ! (j + 1 - k + d)"
      proof (intro allI impI)
        fix d assume "d < k"
        show "a ! (i + 1 - k + d) = b ! (j + 1 - k + d)"
        proof (cases "d < k0")
          case True
          with k0 have "a ! (i - k0 + d) = b ! (j - k0 + d)" by simp
          moreover have "i + 1 - k = i - k0" "j + 1 - k = j - k0" by (simp_all add: k_def)
          ultimately show ?thesis by simp
        next
          case False
          with \<open>d < k\<close> have "d = k0" by (simp add: k_def)
          moreover have "k0 \<le> i" "k0 \<le> j" using k0 by auto
          then have "i + 1 - k + k0 = i" "j + 1 - k + k0 = j"
            by (simp_all add: k_def)
          ultimately show ?thesis using ij by simp
        qed
      qed
      have kb: "0 < k" "k \<le> Suc i - alo" "k \<le> j + 1 - blo"
        using k0 nlo Cons.prems(4) by (auto simp: k_def)
      have row': "row_ok a b alo blo bhi (Suc i) (AList.update j k newj2len)"
        unfolding row_ok_def
      proof (intro allI impI)
        fix j' k' assume m: "map_of (AList.update j k newj2len) j' = Some k'"
        show "0 < k' \<and> k' \<le> Suc i - alo \<and> k' \<le> j' + 1 - blo \<and> j' < bhi \<and>
              (\<forall>d<k'. a ! (Suc i - k' + d) = b ! (j' + 1 - k' + d))"
        proof (cases "j' = j")
          case True
          with m have k': "k' = k" by (simp add: update_conv')
          have "\<forall>d<k. a ! (Suc i - k + d) = b ! (j + 1 - k + d)" using content by simp
          with True kb False show ?thesis unfolding k' by simp
        next
          case neq: False
          with m have "map_of newj2len j' = Some k'" by (simp add: update_conv')
          with Cons.prems(2) show ?thesis unfolding row_ok_def by blast
        qed
      qed
      let ?best = "if k > snd (snd best) then (i + 1 - k, j + 1 - k, k) else best"
      have best': "block_ok a b alo ahi blo bhi ?best"
      proof (cases "k > snd (snd best)")
        case True
        define i' j' where "i' = i + 1 - k" and "j' = j + 1 - k"
        have "alo \<le> i'" "i' + k \<le> ahi" "blo \<le> j'" "j' + k \<le> bhi"
          using kb Cons.prems(4,5) nlo False by (auto simp: i'_def j'_def)
        moreover have "\<forall>d<k. a ! (i' + d) = b ! (j' + d)"
          using content by (simp add: i'_def j'_def)
        ultimately have "block_ok a b alo ahi blo bhi (i', j', k)"
          using kb(1) by (simp add: block_ok_def)
        with True show ?thesis by (simp add: i'_def j'_def)
      next
        case False
        with Cons.prems(3) show ?thesis by simp
      qed
      have "match_row (j # js) i blo bhi j2len newj2len best =
          match_row js i blo bhi j2len (AList.update j k newj2len) ?best"
        by (simp only: match_row.simps nlo False if_False Let_def k_def k0_def)
      with Cons.prems(7)
      have step: "match_row js i blo bhi j2len (AList.update j k newj2len) ?best = (new', best')"
        by simp
      have el: "\<forall>j \<in> set js. b ! j = a ! i" using Cons.prems(6) by simp
      from Cons.IH [OF Cons.prems(1) row' best' Cons.prems(4,5) el step]
      show ?thesis .
    qed
  qed
qed

lemma match_rows_ok:
  assumes "row_ok a b alo blo bhi i0 j2len" and "block_ok a b alo ahi blo bhi best"
    and "alo \<le> i0"
  shows "block_ok a b alo ahi blo bhi (match_rows a b [i0..<ahi] blo bhi j2len best)"
  using assms
proof (induction "ahi - i0" arbitrary: i0 j2len best)
  case 0
  then show ?case by simp
next
  case (Suc n)
  then have lt: "i0 < ahi" by simp
  then have up: "[i0..<ahi] = i0 # [Suc i0..<ahi]" by (rule upt_conv_Cons)
  obtain new best' where r: "match_row (b2j b (a ! i0)) i0 blo bhi j2len [] best = (new, best')"
    by (cases "match_row (b2j b (a ! i0)) i0 blo bhi j2len [] best")
  have e: "row_ok a b alo blo bhi (Suc i0) []" by (simp add: row_ok_def)
  have el: "\<forall>j \<in> set (b2j b (a ! i0)). b ! j = a ! i0" by (simp add: b2j_elem)
  from match_row_ok [OF Suc.prems(1) e Suc.prems(2,3) lt el r]
  have ok: "row_ok a b alo blo bhi (Suc i0) new" "block_ok a b alo ahi blo bhi best'" by simp_all
  have "n = ahi - Suc i0" using Suc.hyps(2) by simp
  from Suc.hyps(1) [OF this ok] Suc.prems(3)
  have "block_ok a b alo ahi blo bhi (match_rows a b [Suc i0..<ahi] blo bhi new best')" by simp
  then show ?case by (simp add: up r)
qed

lemma extend_left_ok:
  "block_ok a b alo ahi blo bhi m \<Longrightarrow> block_ok a b alo ahi blo bhi (extend_left a b alo blo m)"
proof (induction a b alo blo m rule: extend_left.induct)
  case (1 a b alo blo besti bestj bestsize)
  show ?case
  proof (cases "besti > alo \<and> bestj > blo \<and> a ! (besti - 1) = b ! (bestj - 1)")
    case False
    have "extend_left a b alo blo (besti, bestj, bestsize) = (besti, bestj, bestsize)"
      by (subst extend_left.simps) (use False in auto)
    with "1.prems" show ?thesis by simp
  next
    case True
    with "1.prems" have p: "0 < bestsize" "besti + bestsize \<le> ahi" "bestj + bestsize \<le> bhi"
      "\<forall>d<bestsize. a ! (besti + d) = b ! (bestj + d)"
      by (auto simp: block_ok_def)
    have "a ! (besti - 1 + d) = b ! (bestj - 1 + d)" if "d < bestsize + 1" for d
    proof (cases d)
      case 0
      with True show ?thesis by simp
    next
      case (Suc d')
      with that p(4) True show ?thesis by simp
    qed
    with True p have "block_ok a b alo ahi blo bhi (besti - 1, bestj - 1, bestsize + 1)"
      by (auto simp: block_ok_def)
    from "1.IH" [OF True this]
    have "block_ok a b alo ahi blo bhi (extend_left a b alo blo (besti - 1, bestj - 1, bestsize + 1))" .
    moreover have "extend_left a b alo blo (besti, bestj, bestsize) =
        extend_left a b alo blo (besti - 1, bestj - 1, bestsize + 1)"
      by (subst extend_left.simps) (use True in simp)
    ultimately show ?thesis by simp
  qed
qed

lemma extend_right_ok:
  "block_ok a b alo ahi blo bhi m \<Longrightarrow> block_ok a b alo ahi blo bhi (extend_right a b ahi bhi m)"
proof (induction a b ahi bhi m rule: extend_right.induct)
  case (1 a b ahi bhi besti bestj bestsize)
  show ?case
  proof (cases "besti + bestsize < ahi \<and> bestj + bestsize < bhi \<and>
      a ! (besti + bestsize) = b ! (bestj + bestsize)")
    case False
    have "extend_right a b ahi bhi (besti, bestj, bestsize) = (besti, bestj, bestsize)"
      by (subst extend_right.simps) (use False in auto)
    with "1.prems" show ?thesis by simp
  next
    case True
    have c: "a ! (besti + d) = b ! (bestj + d)" if "d < bestsize + 1" for d
    proof (cases "d < bestsize")
      case True
      with "1.prems" show ?thesis by (auto simp: block_ok_def)
    next
      case False
      with that have "d = bestsize" by simp
      with True show ?thesis by simp
    qed
    have "alo \<le> besti \<and> blo \<le> bestj" using "1.prems" by (auto simp: block_ok_def)
    with True c have "block_ok a b alo ahi blo bhi (besti, bestj, bestsize + 1)"
      by (simp add: block_ok_def)
    from "1.IH" [OF True this]
    have "block_ok a b alo ahi blo bhi (extend_right a b ahi bhi (besti, bestj, bestsize + 1))" .
    moreover have "extend_right a b ahi bhi (besti, bestj, bestsize) =
        extend_right a b ahi bhi (besti, bestj, bestsize + 1)"
      by (subst extend_right.simps) (use True in simp)
    ultimately show ?thesis by simp
  qed
qed

lemma find_longest_match_ok:
  "block_ok a b alo ahi blo bhi (find_longest_match a b alo ahi blo bhi)"
  unfolding find_longest_match_def
  by (intro extend_right_ok extend_left_ok match_rows_ok) (simp_all add: row_ok_def block_ok_def)

lemma find_longest_match_bounds:
  assumes "find_longest_match a b alo ahi blo bhi = (i, j, k)" and "k \<noteq> 0"
  shows "alo \<le> i" and "i + k \<le> ahi" and "blo \<le> j" and "j + k \<le> bhi"
    and "\<forall>d<k. a ! (i + d) = b ! (j + d)"
  using find_longest_match_ok [of a b alo ahi blo bhi] assms by (auto simp: block_ok_def)

lemma find_longest_match_range:
  "(i, j, k) = find_longest_match a b alo ahi blo bhi \<Longrightarrow> 0 < k \<Longrightarrow> alo \<le> i \<and> i + k \<le> ahi"
  using find_longest_match_ok [of a b alo ahi blo bhi] by (auto simp: block_ok_def)

text \<open>The loop of \<open>get_matching_blocks\<close> terminates: each range it takes is replaced by smaller ones.\<close>

termination matching_loop
  by (relation "measure (\<lambda>(a, b, queue, blocks).
      sum_list (map (\<lambda>(alo, ahi, blo, bhi). 2 * (ahi - alo) + 1) queue))")
    (auto dest: find_longest_match_range)

declare matching_loop.simps [simp del]

lemma py_slice_split:
  assumes "lo \<le> i" "i + k \<le> hi"
  shows "py_slice xs lo hi = py_slice xs lo i @ py_slice xs i (i + k) @ py_slice xs (i + k) hi"
proof -
  have "hi - lo = (i - lo) + (k + (hi - (i + k)))" using assms by simp
  then have "take (hi - lo) (drop lo xs) =
      take (i - lo) (drop lo xs) @ take (k + (hi - (i + k))) (drop (i - lo) (drop lo xs))"
    by (simp only: take_add)
  also have "drop (i - lo) (drop lo xs) = drop i xs" using assms by simp
  also have "take (k + (hi - (i + k))) (drop i xs) =
      take k (drop i xs) @ take (hi - (i + k)) (drop k (drop i xs))"
    by (simp only: take_add)
  also have "drop k (drop i xs) = drop (i + k) xs" by (simp add: add.commute)
  finally show ?thesis by (simp add: py_slice_def)
qed

lemma py_slice_block:
  assumes "\<forall>d<k. a ! (i + d) = b ! (j + d)" "i + k \<le> length a" "j + k \<le> length b"
  shows "py_slice a i (i + k) = py_slice (b :: 'a list) j (j + k)"
  unfolding py_slice_def using assms by (intro nth_equalityI) simp_all

lemma inter_mset_superadd:
  "A \<inter># B + C \<inter># D \<subseteq># (A + C) \<inter># (B + D)"
  by (auto simp: subseteq_mset_def min_def)

lemma range_cap_split:
  assumes "alo \<le> i" "i + k \<le> ahi" "blo \<le> j" "j + k \<le> bhi"
    and "\<forall>d<k. a ! (i + d) = b ! (j + d)" and "ahi \<le> length a" "bhi \<le> length b"
  shows "range_cap a b (alo, i, blo, j) + k + range_cap a b (i + k, ahi, j + k, bhi)
         \<le> range_cap a b (alo, ahi, blo, bhi)"
proof -
  let ?A1 = "mset (py_slice a alo i)" and ?A2 = "mset (py_slice a (i + k) ahi)"
  let ?B1 = "mset (py_slice b blo j)" and ?B2 = "mset (py_slice b (j + k) bhi)"
  let ?M = "mset (py_slice a i (i + k))"
  have eq: "py_slice a i (i + k) = py_slice b j (j + k)"
    using assms by (intro py_slice_block) simp_all
  have k: "length (py_slice a i (i + k)) = k" using assms by (simp add: py_slice_def)
  have a: "mset (py_slice a alo ahi) = ?A1 + ?M + ?A2"
    using py_slice_split [OF assms(1,2), of a] by simp
  have b: "mset (py_slice b blo bhi) = ?B1 + ?M + ?B2"
    using py_slice_split [OF assms(3,4), of b] eq by simp
  have "?A1 \<inter># ?B1 + ?M \<inter># ?M \<subseteq># (?A1 + ?M) \<inter># (?B1 + ?M)"
    by (rule inter_mset_superadd)
  then have "?A1 \<inter># ?B1 + ?M \<inter># ?M + ?A2 \<inter># ?B2 \<subseteq># (?A1 + ?M) \<inter># (?B1 + ?M) + ?A2 \<inter># ?B2"
    by simp
  also have "\<dots> \<subseteq># (?A1 + ?M + ?A2) \<inter># (?B1 + ?M + ?B2)"
    by (rule inter_mset_superadd)
  finally have "size (?A1 \<inter># ?B1 + ?M \<inter># ?M + ?A2 \<inter># ?B2) \<le>
      size ((?A1 + ?M + ?A2) \<inter># (?B1 + ?M + ?B2))"
    by (rule size_mset_mono)
  then show ?thesis by (simp add: range_cap_def a b k)
qed

lemma total_size_append [simp]: "total_size (xs @ ys) = total_size xs + total_size ys"
  by (simp add: total_size_def)

lemma matching_loop_bound:
  assumes "\<forall>q \<in> set queue. range_valid a b q"
  shows "total_size (matching_loop a b queue blocks) \<le>
         total_size blocks + sum_list (map (range_cap a b) queue)"
  using assms
proof (induction a b queue blocks rule: matching_loop.induct)
  case (1 a b matching_blocks)
  then show ?case by (simp add: matching_loop.simps)
next
  case (2 a b alo ahi blo bhi queue matching_blocks)
  obtain i j k where f: "find_longest_match a b alo ahi blo bhi = (i, j, k)"
    by (cases "find_longest_match a b alo ahi blo bhi") auto
  have v: "ahi \<le> length a" "bhi \<le> length b" and vq: "\<forall>q \<in> set queue. range_valid a b q"
    using "2.prems" by (simp_all add: range_valid_def)
  show ?case
  proof (cases "k = 0")
    case True
    with f have "matching_loop a b ((alo, ahi, blo, bhi) # queue) matching_blocks =
        matching_loop a b queue matching_blocks"
      by (simp add: matching_loop.simps)
    moreover have "total_size (matching_loop a b queue matching_blocks) \<le>
        total_size matching_blocks + sum_list (map (range_cap a b) queue)"
      using "2.IH"(2) [OF f [symmetric] refl _ vq] True by simp
    ultimately show ?thesis by simp
  next
    case False
    let ?right = "if i + k < ahi \<and> j + k < bhi then [(i + k, ahi, j + k, bhi)] else []"
    let ?left = "if alo < i \<and> blo < j then [(alo, i, blo, j)] else []"
    let ?queue = "?right @ ?left @ queue"
    from find_longest_match_bounds [OF f False]
    have bd: "alo \<le> i" "i + k \<le> ahi" "blo \<le> j" "j + k \<le> bhi"
      "\<forall>d<k. a ! (i + d) = b ! (j + d)" by simp_all
    have valid: "\<forall>q \<in> set ?queue. range_valid a b q"
      using vq v bd by (auto simp: range_valid_def)
    have step: "matching_loop a b ((alo, ahi, blo, bhi) # queue) matching_blocks =
        matching_loop a b ?queue (matching_blocks @ [(i, j, k)])"
      using f False by (simp add: matching_loop.simps)
    have "total_size (matching_loop a b ?queue (matching_blocks @ [(i, j, k)])) \<le>
        total_size (matching_blocks @ [(i, j, k)]) + sum_list (map (range_cap a b) ?queue)"
      using "2.IH"(1) [OF f [symmetric] refl _ valid] False by simp
    moreover have "sum_list (map (range_cap a b) ?queue) \<le>
        range_cap a b (alo, i, blo, j) + range_cap a b (i + k, ahi, j + k, bhi) +
        sum_list (map (range_cap a b) queue)"
      by simp
    moreover have "range_cap a b (alo, i, blo, j) + k + range_cap a b (i + k, ahi, j + k, bhi)
        \<le> range_cap a b (alo, ahi, blo, bhi)"
      using bd v by (intro range_cap_split) simp_all
    ultimately show ?thesis unfolding step by (simp add: total_size_def)
  qed
qed

lemma total_size_collapse:
  "total_size (collapse blocks m non_adjacent) =
   total_size non_adjacent + snd (snd m) + total_size blocks"
proof (induction blocks m non_adjacent rule: collapse.induct)
  case (1 i1 j1 k1 non_adjacent)
  then show ?case by (simp add: total_size_def)
next
  case (2 i2 j2 k2 rest i1 j1 k1 non_adjacent)
  then show ?case by (simp add: total_size_def)
qed

lemma total_size_sort: "total_size (sort blocks) = total_size blocks"
proof -
  have "total_size xs = sum_mset (image_mset (\<lambda>triple. snd (snd triple)) (mset xs))" for xs
    by (simp add: total_size_def sum_mset_sum_list [symmetric] del: sum_mset_sum_list)
  then show ?thesis by simp
qed

lemma matches_le_inter:
  "total_size (get_matching_blocks a b) \<le> size (mset a \<inter># mset b)"
proof -
  have "total_size (matching_loop a b [(0, length a, 0, length b)] []) \<le>
      total_size [] + sum_list (map (range_cap a b) [(0, length a, 0, length b)])"
    by (rule matching_loop_bound) (simp add: range_valid_def)
  then have "total_size (matching_loop a b [(0, length a, 0, length b)] []) \<le>
      size (mset a \<inter># mset b)"
    by (simp add: range_cap_def py_slice_def total_size_def)
  then show ?thesis
    by (simp add: get_matching_blocks_def total_size_collapse total_size_sort)
      (simp add: total_size_def)
qed

lemma quick_matches_inter:
  assumes "\<forall>x. count M x = nat (avail_of b avail x)"
  shows "quick_matches b a avail matches = matches + size (mset a \<inter># M)"
  using assms
proof (induction a arbitrary: avail matches M)
  case Nil
  then show ?case by simp
next
  case (Cons elt a)
  let ?numb = "avail_of b avail elt"
  let ?avail = "AList.update elt (?numb - 1) avail"
  have av: "avail_of b ?avail x = (if x = elt then ?numb - 1 else avail_of b avail x)" for x
    by (simp add: avail_of_def update_conv')
  have step: "quick_matches b (elt # a) avail matches =
      quick_matches b a ?avail (if ?numb > 0 then matches + 1 else matches)"
    by (simp add: avail_of_def Let_def)
  show ?case
  proof (cases "?numb > 0")
    case True
    with Cons.prems have in_M: "elt \<in># M" by (simp add: count_greater_zero_iff [symmetric] del: count_greater_zero_iff)
    have "\<forall>x. count (M - {#elt#}) x = nat (avail_of b ?avail x)"
      using Cons.prems by (auto simp: av)
    from Cons.IH [OF this] True
    have "quick_matches b (elt # a) avail matches = matches + 1 + size (mset a \<inter># (M - {#elt#}))"
      unfolding step by simp
    moreover have "mset (elt # a) \<inter># M = add_mset elt (mset a \<inter># (M - {#elt#}))"
      using in_M by (simp add: multiset_eq_iff) (metis count_greater_zero_iff not_gr_zero Suc_pred min_Suc_Suc)
    ultimately show ?thesis by simp
  next
    case False
    with Cons.prems have not_M: "elt \<notin># M" by (simp add: count_eq_zero_iff [symmetric] del: count_eq_zero_iff)
    have "\<forall>x. count M x = nat (avail_of b ?avail x)"
      using Cons.prems False by (auto simp: av)
    from Cons.IH [OF this] False
    have "quick_matches b (elt # a) avail matches = matches + size (mset a \<inter># M)"
      unfolding step by simp
    moreover have "mset (elt # a) \<inter># M = mset a \<inter># M"
      using not_M by (simp add: multiset_eq_iff count_eq_zero_iff [symmetric] del: count_eq_zero_iff)
    ultimately show ?thesis by simp
  qed
qed

lemma quick_matches_eq: "quick_matches b a [] 0 = size (mset a \<inter># mset b)"
  by (rule quick_matches_inter [where matches = 0, simplified])
    (simp add: avail_of_def count_mset)

lemma calculate_ratio_mono: "m \<le> n \<Longrightarrow> calculate_ratio m len \<le> calculate_ratio n len"
  by (simp add: calculate_ratio_def divide_right_mono)

lemma SequenceMatcher_ratio_bounded: "bounded_ratio SequenceMatcher_ratio"
  unfolding bounded_ratio_def
proof (intro allI conjI)
  fix a b
  have m: "total_size (get_matching_blocks a b) \<le> size (mset a \<inter># mset b)"
    by (rule matches_le_inter)
  show "SequenceMatcher_ratio a b \<le> quick_ratio a b"
    unfolding SequenceMatcher_ratio_def quick_ratio_def quick_matches_eq
    using m by (intro calculate_ratio_mono) (simp add: total_size_def)
  have "size (mset a \<inter># mset b) \<le> min (length a) (length b)"
    by (metis min.boundedI size_mset size_mset_mono subset_mset.inf_le1 subset_mset.inf_le2)
  with m show "SequenceMatcher_ratio a b \<le> real_quick_ratio a b"
    unfolding SequenceMatcher_ratio_def real_quick_ratio_def
    by (intro calculate_ratio_mono) (simp add: total_size_def)
qed

section \<open>Properties of the title normalizer\<close>

lemma key_char_not_space: "is_key_char c \<Longrightarrow> \<not> isspace c"
  by (auto simp: is_key_char_def isspace_def Let_def)

lemma key_char_lower: "is_key_char c \<Longrightarrow> lower_char c = c"
  by (auto simp: is_key_char_def lower_char_def Let_def)

lemma key_char_not_amp: "is_key_char c \<Longrightarrow> c \<noteq> CHR ''&''"
  by (auto simp: is_key_char_def)

lemma dropWhile_none: "\<forall>x\<in>set xs. \<not> P x \<Longrightarrow> dropWhile P xs = xs"
  by (cases xs) auto

lemma strip_key_chars: "\<forall>c\<in>set s. is_key_char c \<Longrightarrow> strip s = s"
  by (simp add: strip_def dropWhile_none key_char_not_space)

lemma lower_key_chars: "\<forall>c\<in>set s. is_key_char c \<Longrightarrow> lower s = s"
  by (simp add: lower_def key_char_lower map_idI)

lemma replace_amp_key_chars: "\<forall>c\<in>set s. is_key_char c \<Longrightarrow> replace_amp s = s"
  by (induction s) (auto simp: replace_amp_def key_char_not_amp)

lemma normalize_title_key_chars: "\<forall>c\<in>set s. is_key_char c \<Longrightarrow> normalize_title s = s"
  by (simp add: normalize_title_def re_sub_non_key_def strip_key_chars lower_key_chars
      replace_amp_key_chars)

lemma normalize_title_is_key: "c \<in> set (normalize_title s) \<Longrightarrow> is_key_char c"
  by (simp add: normalize_title_def re_sub_non_key_def)

text \<open>
  C7. Normalization is idempotent: a normalized title holds only characters of
  \<open>[a-z0-9]\<close>, which trimming, lower-casing, the replacement of \<open>&\<close> and the removal of
  the other characters all leave as they are.
\<close>

theorem normalize_title_idempotent: "normalize_title (normalize_title x) = normalize_title x"
  by (rule normalize_title_key_chars) (simp add: normalize_title_is_key)

section \<open>Properties of the matcher\<close>

text \<open>
  C3. A key that is among the candidate keys is returned as it is, whatever the cutoff
  (the similarity is not consulted).
\<close>

theorem find_match_exact:
  "key \<in> set repo_keys \<Longrightarrow> find_match ratio key repo_keys cutoff = Inr (Some key)"
  by (simp add: find_match_def)

theorem find_match_exact_witness:
  "''abc'' \<in> set [''abd'', ''abc''] \<and>
   find_match quick_ratio ''abc'' [''abd'', ''abc''] 1 = Inr (Some ''abc'')"
  using find_match_exact [of "''abc''" "[''abd'', ''abc'']" quick_ratio 1] by simp

lemma py_max_fold: "py_max m xs = fold max xs m"
  by (induction xs arbitrary: m) (auto simp: max_def)

lemma py_max_Max: "py_max x xs = Max (set (x # xs))"
  by (simp only: py_max_fold Max.set_eq_fold)

lemma nlargest1_Max: "nlargest1 xs = (if xs = [] then [] else [Max (set xs)])"
  by (cases xs) (simp_all add: nlargest1_def py_max_Max del: py_max.simps)

text \<open>
  Lowering the cutoff admits more candidates, but none that scores above the best of
  those admitted before: a candidate that fails one of the three tests at \<open>c\<close> has a
  ratio below \<open>c\<close>.
\<close>

lemma scored_Max_mono:
  assumes b: "bounded_ratio ratio" and cc: "c' \<le> c"
    and ne: "filter (close_enough ratio word c) ps \<noteq> []"
  shows "Max (set (map (\<lambda>x. (ratio x word, x)) (filter (close_enough ratio word c') ps))) =
         Max (set (map (\<lambda>x. (ratio x word, x)) (filter (close_enough ratio word c) ps)))"
    (is "Max ?S' = Max ?S")
proof (rule Max_eqI)
  show "finite ?S'" by simp
  have fin: "finite ?S" by simp
  have nonempty: "?S \<noteq> {}" using ne by (auto simp: filter_empty_conv)
  have sub: "?S \<subseteq> ?S'" using cc by (auto simp: close_enough_def)
  from Max_in [OF fin nonempty] sub show "Max ?S \<in> ?S'" by blast
  obtain z where z: "z \<in> set ps" "close_enough ratio word c z" "Max ?S = (ratio z word, z)"
    using Max_in [OF fin nonempty] by auto
  fix y assume "y \<in> ?S'"
  then obtain x where x: "x \<in> set ps" "y = (ratio x word, x)" by auto
  show "y \<le> Max ?S"
  proof (cases "close_enough ratio word c x")
    case True
    with x have "y \<in> ?S" by auto
    then show ?thesis using fin by simp
  next
    case False
    have "ratio x word \<le> quick_ratio x word" "ratio x word \<le> real_quick_ratio x word"
      using b by (simp_all add: bounded_ratio_def)
    with False have "ratio x word < c"
      unfolding close_enough_def by linarith
    moreover from z have "c \<le> ratio z word" by (simp add: close_enough_def)
    ultimately show ?thesis using x z by (simp add: less_eq_prod_def)
  qed
qed

text \<open>
  For a similarity that \<open>quick_ratio\<close> and \<open>real_quick_ratio\<close> bound from above, a
  candidate returned at cutoff \<open>c\<close> is returned at every lower cutoff that \<open>difflib\<close>
  accepts.
\<close>

lemma find_match_monotone_bounded:
  assumes b: "bounded_ratio ratio"
    and m: "find_match ratio key repo_keys c = Inr (Some m)"
    and c': "0 \<le> c'" "c' < c"
  shows "find_match ratio key repo_keys c' = Inr (Some m)"
proof (cases "key \<in> set repo_keys")
  case True
  with m show ?thesis by (simp add: find_match_def)
next
  case False
  let ?F = "\<lambda>c. filter (close_enough ratio key c) repo_keys"
  let ?S = "\<lambda>c. map (\<lambda>x. (ratio x key, x)) (?F c)"
  from m False have c: "0 \<le> c" "c \<le> 1"
    by (auto simp: find_match_def get_close_matches_def split: if_splits)
  with m False have ne: "?F c \<noteq> []" and mm: "m = snd (Max (set (?S c)))"
    by (auto simp: find_match_def get_close_matches_def nlargest1_Max split: if_splits)
  have sub: "set (?F c) \<subseteq> set (?F c')" using c' by (auto simp: close_enough_def)
  with ne have ne': "?F c' \<noteq> []" by (auto simp: filter_empty_conv)
  have mx: "Max (set (?S c')) = Max (set (?S c))"
    by (rule scored_Max_mono [OF b _ ne]) (use c' in simp)
  have "nlargest1 (?S c') = [Max (set (?S c'))]"
    using ne' by (simp add: nlargest1_Max)
  then have "get_close_matches ratio key repo_keys c' = Inr [snd (Max (set (?S c')))]"
    using c c' by (simp add: get_close_matches_def)
  then have "find_match ratio key repo_keys c' = Inr (Some (snd (Max (set (?S c')))))"
    using False by (simp add: find_match_def)
  then show ?thesis by (simp only: mx mm)
qed

text \<open>
  C6. When \<open>find_match\<close>, with the similarity of \<open>difflib\<close>, returns a candidate at cutoff
  \<open>c\<close>, it returns the same candidate at every lower cutoff that \<open>difflib\<close> accepts
  (\<open>0 \<le> c'\<close>).
\<close>

theorem find_match_cutoff_monotone:
  assumes "find_match SequenceMatcher_ratio key repo_keys c = Inr (Some m)"
    and "0 \<le> c'" and "c' < c"
  shows "find_match SequenceMatcher_ratio key repo_keys c' = Inr (Some m)"
  using find_match_monotone_bounded [OF SequenceMatcher_ratio_bounded assms] .

theorem find_match_cutoff_monotone_witness:
  "find_match SequenceMatcher_ratio ''abcd'' [''abce'', ''abxy'', ''zzzz''] (3/4) = Inr (Some ''abce'') \<and>
   (0::real) \<le> 1/2 \<and> (1/2::real) < 3/4 \<and>
   find_match SequenceMatcher_ratio ''abcd'' [''abce'', ''abxy'', ''zzzz''] (1/2) = Inr (Some ''abce'')"
proof -
  have m: "find_match SequenceMatcher_ratio ''abcd'' [''abce'', ''abxy'', ''zzzz''] (3/4) = Inr (Some ''abce'')"
    by code_simp
  from find_match_cutoff_monotone [OF m, of "1/2"] m show ?thesis by simp
qed

lemma find_match_in_range:
  "0 \<le> cutoff \<Longrightarrow> cutoff \<le> 1 \<Longrightarrow> \<exists>m. find_match ratio k repo_keys cutoff = Inr m"
  by (simp add: find_match_def get_close_matches_def)

lemma find_match_raises:
  "find_match ratio k repo_keys cutoff = Inl e \<Longrightarrow> \<not> (0 \<le> cutoff \<and> cutoff \<le> 1)"
  using find_match_in_range [of cutoff ratio k repo_keys] by auto

lemma real_quick_ratio_empty_word: "x \<noteq> [] \<Longrightarrow> real_quick_ratio x [] = 0"
  by (simp add: real_quick_ratio_def calculate_ratio_def)

lemma get_close_matches_empty_word:
  assumes "0 < cutoff" "cutoff \<le> 1" "[] \<notin> set possibilities"
  shows "get_close_matches ratio [] possibilities cutoff = Inr []"
proof -
  have "\<not> close_enough ratio [] cutoff x" if "x \<in> set possibilities" for x
  proof -
    from that assms have "x \<noteq> []" by auto
    then show ?thesis using assms by (simp add: close_enough_def real_quick_ratio_empty_word)
  qed
  then have "filter (close_enough ratio [] cutoff) possibilities = []"
    by (auto simp: filter_empty_conv)
  with assms show ?thesis by (simp add: get_close_matches_def nlargest1_def)
qed

lemma find_match_empty_word:
  assumes "0 < cutoff" "cutoff \<le> 1"
  shows "find_match ratio [] repo_keys cutoff = Inr (if [] \<in> set repo_keys then Some [] else None)"
  using assms by (simp add: find_match_def get_close_matches_empty_word)

section \<open>Properties of the comparison loop\<close>

lemma main_diff_returns:
  "main_diff ratio repo_keys cutoff pubs (m, miss) = Inr (m', miss') \<Longrightarrow>
     m' = m + length (filter (\<lambda>p. has_title_key p \<and> pub_found ratio repo_keys cutoff p) pubs) \<and>
     miss' = miss @ filter (\<lambda>p. has_title_key p \<and> \<not> pub_found ratio repo_keys cutoff p) pubs"
proof (induction pubs arbitrary: m miss)
  case Nil
  then show ?case by simp
next
  case (Cons pub pubs)
  show ?case
  proof (cases "normalize_title (title pub) = []")
    case True
    with Cons show ?thesis by (simp add: has_title_key_def)
  next
    case False
    then obtain found
      where f: "find_match ratio (normalize_title (title pub)) repo_keys cutoff = Inr found"
      using Cons.prems by (auto split: sum.splits)
    show ?thesis
    proof (cases "truthy found")
      case True
      with False f Cons.prems
      have "main_diff ratio repo_keys cutoff pubs (m + 1, miss) = Inr (m', miss')" by simp
      from Cons.IH [OF this] False f True show ?thesis
        by (simp add: has_title_key_def pub_found_def)
    next
      case nf: False
      with False f Cons.prems
      have "main_diff ratio repo_keys cutoff pubs (m, miss @ [pub]) = Inr (m', miss')" by simp
      from Cons.IH [OF this] False f nf show ?thesis
        by (simp add: has_title_key_def pub_found_def)
    qed
  qed
qed

lemma main_diff_raises:
  "main_diff ratio repo_keys cutoff pubs acc = Inl e \<Longrightarrow> \<not> (0 \<le> cutoff \<and> cutoff \<le> 1)"
proof (induction pubs arbitrary: acc)
  case Nil
  then show ?case by simp
next
  case (Cons pub pubs)
  obtain m miss where acc: "acc = (m, miss)" by (cases acc)
  show ?case
    using Cons.prems Cons.IH find_match_raises unfolding acc
    by (auto simp: Let_def split: if_splits sum.splits)
qed

lemma length_filter_split:
  "length (filter (\<lambda>x. P x \<and> Q x) xs) + length (filter (\<lambda>x. P x \<and> \<not> Q x) xs) =
   length (filter P xs)"
  by (induction xs) auto

text \<open>
  C2. When the comparison loop of \<open>main\<close> returns, the matched count and the length of
  the missing list add up to the number of records with a non-empty normalized title,
  and the missing list holds the unmatched ones among them, in input order. The loop
  raises only when \<open>difflib\<close> rejects the cutoff, which it does not for a cutoff in [0, 1].
\<close>

theorem main_diff_partition:
  "case main_diff ratio repo_keys cutoff pubs (0, []) of
     Inr (matched, missing) \<Rightarrow>
       matched + length missing = length (filter has_title_key pubs) \<and>
       missing = filter (\<lambda>p. has_title_key p \<and> \<not> pub_found ratio repo_keys cutoff p) pubs
   | Inl e \<Rightarrow> \<not> (0 \<le> cutoff \<and> cutoff \<le> 1)"
proof (cases "main_diff ratio repo_keys cutoff pubs (0, [])")
  case (Inl e)
  then show ?thesis using main_diff_raises by simp
next
  case (Inr r)
  obtain m miss where r: "r = (m, miss)" by (cases r)
  from main_diff_returns [OF Inr [unfolded r]] Inr r show ?thesis
    by (simp add: length_filter_split)
qed

theorem main_diff_partition_witness:
  "main_diff SequenceMatcher_ratio (map fst example_index) (94/100) [pubA, pubC, pubB] (0, []) =
     Inr (1, [pubB]) \<and>
   1 + length [pubB] = length (filter has_title_key [pubA, pubC, pubB]) \<and>
   [pubB] = filter (\<lambda>p. has_title_key p \<and> \<not> pub_found SequenceMatcher_ratio (map fst example_index) (94/100) p)
              [pubA, pubC, pubB]"
proof -
  have e: "main_diff SequenceMatcher_ratio (map fst example_index) (94/100) [pubA, pubC, pubB] (0, []) =
      Inr (1, [pubB])"
    by code_simp
  from main_diff_partition [where ratio = SequenceMatcher_ratio and repo_keys = "map fst example_index"
      and cutoff = "94/100" and pubs = "[pubA, pubC, pubB]"]
  show ?thesis unfolding e by simp
qed

lemma main_diff_skips_empty:
  "main_diff ratio repo_keys cutoff pubs acc =
   main_diff ratio repo_keys cutoff (filter has_title_key pubs) acc"
proof (induction pubs arbitrary: acc)
  case Nil
  then show ?case by simp
next
  case (Cons pub pubs)
  obtain m miss where acc: "acc = (m, miss)" by (cases acc)
  show ?case unfolding acc
    by (simp add: has_title_key_def Cons.IH Let_def split: sum.splits)
qed

section \<open>Properties of the identifier update\<close>

lemma update_pubs_skips_empty:
  assumes "0 < cutoff" "cutoff \<le> 1"
  shows "update_pubs ratio repo_index repo_keys cutoff pubs st =
         update_pubs ratio repo_index repo_keys cutoff (filter has_title_key pubs) st"
proof (induction pubs arbitrary: st)
  case Nil
  then show ?case by simp
next
  case (Cons p pubs)
  show ?case
  proof (cases "has_title_key p")
    case True
    then show ?thesis
      by (simp add: Cons.IH split: sum.splits option.splits prod.splits)
  next
    case False
    then have "normalize_title (title p) = []" by (simp add: has_title_key_def)
    with False show ?thesis
      by (simp add: Cons.IH find_match_empty_word [OF assms])
  qed
qed

text \<open>
  Leaving out the records with an empty normalized title changes nothing in the
  comparison loop of \<open>main\<close>, which has a guard for them. \<open>update_scholar_ids\<close> has no such
  guard; for a cutoff in (0, 1] the matcher rejects the empty key, since
  \<open>real_quick_ratio\<close> is 0 there, and leaving those records out changes neither the count
  nor the tables.
\<close>

lemma empty_title_skipped:
  "main_diff ratio repo_keys cutoff pubs acc =
     main_diff ratio repo_keys cutoff (filter has_title_key pubs) acc \<and>
   (0 < cutoff \<and> cutoff \<le> 1 \<longrightarrow>
     update_scholar_ids ratio loaded repo_index pubs cutoff =
     update_scholar_ids ratio loaded repo_index (filter has_title_key pubs) cutoff)"
  using main_diff_skips_empty [of ratio repo_keys cutoff pubs acc]
    update_pubs_skips_empty [of cutoff ratio repo_index "map fst repo_index" pubs "(0, loaded)"]
  by (simp add: update_scholar_ids_def)

lemma empty_title_skipped_example:
  "main_diff SequenceMatcher_ratio (map fst example_index) (94/100) [pubA, pubC, pubB] (0, []) =
     main_diff SequenceMatcher_ratio (map fst example_index) (94/100) [pubA, pubB] (0, []) \<and>
   update_scholar_ids SequenceMatcher_ratio example_loaded example_index [pubA, pubC, pubB] (94/100) =
     update_scholar_ids SequenceMatcher_ratio example_loaded example_index [pubA, pubB] (94/100)"
proof -
  have f: "filter has_title_key [pubA, pubC, pubB] = [pubA, pubB]" by code_simp
  from empty_title_skipped [where ratio = SequenceMatcher_ratio
      and repo_keys = "map fst example_index" and cutoff = "94/100"
      and pubs = "[pubA, pubC, pubB]" and acc = "(0, [])"
      and loaded = example_loaded and repo_index = example_index]
  show ?thesis unfolding f by simp
qed

text \<open>
  C4. At the cutoff 0, which the command line and \<open>difflib\<close> accept, a record whose title
  normalizes to the empty string is skipped by the comparison loop of \<open>main\<close>, neither
  matched nor missing, but not by \<open>update_scholar_ids\<close>: every key scores 0, which is not
  below the cutoff, so the matcher returns the greatest key, and the record's identifier
  is written to that key's row, where the call without the record writes nothing.
\<close>

theorem empty_title_written_at_cutoff_zero:
  "normalize_title (title pubC) = [] \<and>
   main_diff SequenceMatcher_ratio (map fst example_index) 0 [pubC] (0, []) = Inr (0, []) \<and>
   find_match SequenceMatcher_ratio (normalize_title (title pubC)) (map fst example_index) 0 =
     Inr (Some ''sparsematrixinversion'') \<and>
   update_scholar_ids SequenceMatcher_ratio example_loaded example_index [] 0 =
     (Inr 0, example_loaded) \<and>
   update_scholar_ids SequenceMatcher_ratio example_loaded example_index [pubC] 0 =
     (Inr 1,
      [(''a.csv'', [''Title'', ''Year'', ''Scholar ID''],
        [\<lparr>cells = [(''Title'', ''Graph Coloring Revisited''), (''Year'', ''2020''),
                   (''Scholar ID'', [])],
          rest_fields = None\<rparr>,
         \<lparr>cells = [(''Title'', ''Sparse Matrix Inversion''), (''Year'', []),
                   (''Scholar ID'', ''q1'')],
          rest_fields = None\<rparr>]),
       (''b.csv'', [''Year'', ''Title''],
        [\<lparr>cells = [(''Year'', ''2020''), (''Title'', ''graph coloring: revisited'')],
          rest_fields = None\<rparr>])])"
  by code_simp

section \<open>Properties of the index builder\<close>

lemma setdefault_append_keys:
  "fst ` set (setdefault_append k v al) = insert k (fst ` set al)"
  by (induction al) auto

lemma setdefault_append_distinct:
  "distinct (map fst al) \<Longrightarrow> distinct (map fst (setdefault_append k v al))"
proof (induction al)
  case Nil
  then show ?case by simp
next
  case (Cons e al)
  then show ?case
    using setdefault_append_keys [of k v al] by (auto simp: image_iff)
qed

lemma setdefault_append_entry:
  assumes "e \<in> set (setdefault_append k v al)"
  shows "e \<in> set al \<or> e = (k, [v]) \<or> (\<exists>vs. (k, vs) \<in> set al \<and> e = (k, vs @ [v]))"
  using assms by (induction al) (auto split: if_splits)

lemma setdefault_append_wf:
  assumes "index_wf al loaded" "k \<noteq> []" "loc_ok loaded k v"
  shows "index_wf (setdefault_append k v al) loaded"
  unfolding index_wf_def
proof (intro conjI ballI)
  show "distinct (map fst (setdefault_append k v al))"
    using assms(1) by (simp add: index_wf_def setdefault_append_distinct)
next
  fix e assume "e \<in> set (setdefault_append k v al)"
  from setdefault_append_entry [OF this] assms
  show "fst e \<noteq> []" by (auto simp: index_wf_def)
next
  fix e assume "e \<in> set (setdefault_append k v al)"
  from setdefault_append_entry [OF this]
  show "snd e \<noteq> []" using assms by (auto simp: index_wf_def)
next
  fix e loc assume "e \<in> set (setdefault_append k v al)" "loc \<in> set (snd e)"
  with setdefault_append_entry [of e k v al] assms
  show "loc_ok loaded (fst e) loc" by (fastforce simp: index_wf_def)
qed

lemma index_rows_wf:
  assumes "index_wf by_title loaded"
    and "map_of loaded p = Some (headers, pre @ rows)" and "''Title'' \<in> set headers"
    and "idx = length pre"
  shows "index_wf (index_rows p rows idx by_title) loaded"
  using assms
proof (induction rows arbitrary: idx by_title pre)
  case Nil
  then show ?case by simp
next
  case (Cons r rows)
  let ?norm = "normalize_title (dict_get (cells r) ''Title'' [])"
  let ?bt = "if ?norm = [] then by_title else setdefault_append ?norm (p, idx) by_title"
  have ok: "?norm \<noteq> [] \<Longrightarrow> loc_ok loaded ?norm (p, idx)"
    using Cons.prems by (simp add: loc_ok_def)
  have wf: "index_wf ?bt loaded"
    using Cons.prems(1) ok by (simp add: setdefault_append_wf)
  have "index_wf (index_rows p rows (Suc idx) ?bt) loaded"
    by (rule Cons.IH [OF wf, where pre = "pre @ [r]"]) (use Cons.prems in simp_all)
  then show ?case by (simp add: Let_def)
qed

lemma loc_ok_reload:
  assumes "loc_ok loaded k loc" "loaded_from disk loaded"
  shows "loc_ok (AList.update p (read_csv (disk p)) loaded) k loc"
proof -
  obtain q idx where loc: "loc = (q, idx)" by (cases loc)
  from assms(1) obtain t where t: "map_of loaded q = Some t"
    by (auto simp: loc_ok_def loc split: option.splits)
  with assms(2) have "t = read_csv (disk q)" unfolding loaded_from_def by blast
  with t have "map_of (AList.update p (read_csv (disk p)) loaded) q = map_of loaded q"
    by (simp add: update_conv')
  with assms(1) show ?thesis by (simp add: loc_ok_def loc)
qed

lemma index_wf_reload:
  "index_wf by_title loaded \<Longrightarrow> loaded_from disk loaded \<Longrightarrow>
   index_wf by_title (AList.update p (read_csv (disk p)) loaded)"
  by (simp add: index_wf_def loc_ok_reload)

lemma loaded_from_reload:
  "loaded_from disk loaded \<Longrightarrow> loaded_from disk (AList.update p (read_csv (disk p)) loaded)"
  by (simp add: loaded_from_def update_conv')

lemma index_files_wf:
  assumes "index_wf by_title loaded" "loaded_from disk loaded"
  shows "index_wf (fst (index_files disk ps (by_title, loaded)))
           (snd (index_files disk ps (by_title, loaded)))"
  using assms
proof (induction ps arbitrary: by_title loaded)
  case Nil
  then show ?case by simp
next
  case (Cons p ps)
  obtain headers rows where rc: "read_csv (disk p) = (headers, rows)"
    by (cases "read_csv (disk p)")
  let ?loaded = "AList.update p (headers, rows) loaded"
  have wf: "index_wf by_title ?loaded"
    using index_wf_reload [OF Cons.prems, of p] by (simp add: rc)
  have lf: "loaded_from disk ?loaded"
    using loaded_from_reload [OF Cons.prems(2), of p] by (simp add: rc)
  show ?case
  proof (cases "''Title'' \<in> set headers")
    case False
    with Cons.IH [OF wf lf] show ?thesis by (simp add: rc)
  next
    case True
    have "map_of ?loaded p = Some (headers, [] @ rows)" by (simp add: update_conv')
    from index_rows_wf [OF wf this True] have "index_wf (index_rows p rows 0 by_title) ?loaded"
      by simp
    from Cons.IH [OF this lf] True show ?thesis by (simp add: rc)
  qed
qed

text \<open>
  C10. The index \<open>build_repo_title_index\<close> returns is well-formed for the tables it
  returns: its keys are non-empty normalized titles, and every location under a key is
  a row of a loaded table whose header has \<open>Title\<close> and whose title normalizes to that key.
\<close>

theorem build_repo_title_index_wf:
  "index_wf (fst (build_repo_title_index disk csv_files)) (snd (build_repo_title_index disk csv_files))"
  unfolding build_repo_title_index_def
  by (rule index_files_wf) (simp_all add: index_wf_def loaded_from_def)

section \<open>What the identifier update keeps\<close>

lemma row_kept_refl: "row_kept r r"
  by (simp add: row_kept_def)

lemma row_kept_trans: "row_kept r r' \<Longrightarrow> row_kept r' r'' \<Longrightarrow> row_kept r r''"
  by (simp add: row_kept_def)

lemma table_kept_refl: "table_kept t t"
  by (simp add: table_kept_def list_all2_refl row_kept_refl)

lemma table_kept_trans:
  assumes "table_kept t t'" "table_kept t' t''"
  shows "table_kept t t''"
proof -
  have "list_all2 row_kept (snd t) (snd t'')"
    using assms row_kept_trans unfolding table_kept_def
    by (blast intro: list_all2_trans)
  moreover have "fst t'' = fst t \<or> (''Scholar ID'' \<notin> set (fst t) \<and> fst t'' = fst t @ [''Scholar ID''])"
    using assms unfolding table_kept_def by auto
  ultimately show ?thesis by (simp add: table_kept_def)
qed

lemma loaded_kept_refl: "loaded_kept l l"
  by (simp add: loaded_kept_def list_all2_refl table_kept_refl)

lemma loaded_kept_trans:
  assumes "loaded_kept l l'" "loaded_kept l' l''"
  shows "loaded_kept l l''"
  using assms unfolding loaded_kept_def
  by (rule list_all2_trans [rotated]) (auto intro: table_kept_trans)

lemma loaded_kept_update:
  "map_of l p = Some t \<Longrightarrow> table_kept t t' \<Longrightarrow> loaded_kept l (AList.update p t' l)"
proof (induction l)
  case Nil
  then show ?case by simp
next
  case (Cons e l)
  then show ?case
    using loaded_kept_refl [of l]
    by (cases e) (auto simp: loaded_kept_def table_kept_refl split: if_splits)
qed

lemma loaded_kept_map_of:
  "loaded_kept l l' \<Longrightarrow> map_of l p = Some t \<Longrightarrow> \<exists>t'. map_of l' p = Some t' \<and> table_kept t t'"
  unfolding loaded_kept_def
proof (induction l l' rule: list_all2_induct)
  case Nil
  then show ?case by simp
next
  case (Cons e l e' l')
  then show ?case by (cases e; cases e') (auto split: if_splits)
qed

lemma filter_update_other:
  "filter (\<lambda>kv. fst kv \<noteq> k) (AList.update k v al) = filter (\<lambda>kv. fst kv \<noteq> k) al"
  by (induction al) auto

lemma row_kept_setdefault:
  "row_kept r (r\<lparr>cells := dict_setdefault ''Scholar ID'' [] (cells r)\<rparr>)"
  by (simp add: row_kept_def dict_setdefault_def)

lemma update_fst_set: "fst ` set (AList.update k v al) = insert k (fst ` set al)"
  by (induction al) auto

lemma row_kept_set:
  "row_kept r (r\<lparr>cells := AList.update ''Scholar ID'' sid (cells r)\<rparr>)"
  by (simp add: row_kept_def filter_update_other update_fst_set)

lemma table_kept_ensure_column: "table_kept t (ensure_column t)"
  by (cases t) (auto simp: table_kept_def ensure_column_def list_all2_map2 row_kept_setdefault
      row_kept_refl intro: list_all2_refl)

lemma table_kept_set_scholar_id:
  "table_kept (headers, rows) (headers, set_scholar_id sid i rows)"
proof (cases "i < length rows")
  case True
  then show ?thesis
    unfolding table_kept_def set_scholar_id_def
    by (simp add: list_all2_conv_all_nth nth_list_update row_kept_refl row_kept_set)
next
  case False
  then show ?thesis
    using table_kept_refl [of "(headers, rows)"]
    by (simp add: set_scholar_id_def list_update_beyond)
qed

lemma update_row_kept:
  assumes "update_row sid loc (n, l) = (e, n', l')"
  shows "loaded_kept l l'"
proof -
  obtain p i where loc: "loc = (p, i)" by (cases loc)
  show ?thesis
  proof (cases "map_of l p")
    case None
    with assms loc show ?thesis by (simp add: update_row_def loaded_kept_refl)
  next
    case (Some t)
    obtain headers rows where ec: "ensure_column t = (headers, rows)" by (cases "ensure_column t")
    have k1: "table_kept t (headers, rows)" using table_kept_ensure_column [of t] ec by simp
    have k2: "table_kept t (headers, set_scholar_id sid i rows)"
      using table_kept_trans [OF k1 table_kept_set_scholar_id] .
    from assms loc Some ec
    have "l' = AList.update p (headers, rows) l \<or>
          l' = AList.update p (headers, set_scholar_id sid i rows) l"
      by (auto simp: update_row_def split: if_splits)
    with k1 k2 Some show ?thesis by (auto intro: loaded_kept_update)
  qed
qed

lemma update_rows_kept:
  "update_rows sid locs (n, l) = (e, n', l') \<Longrightarrow> loaded_kept l l'"
proof (induction locs arbitrary: n l)
  case Nil
  then show ?case by (simp add: loaded_kept_refl)
next
  case (Cons loc locs)
  obtain e1 n1 l1 where s: "update_row sid loc (n, l) = (e1, n1, l1)"
    by (cases "update_row sid loc (n, l)") auto
  have k: "loaded_kept l l1" using update_row_kept [OF s] .
  show ?case
  proof (cases e1)
    case None
    with Cons.prems s have "update_rows sid locs (n1, l1) = (e, n', l')" by simp
    from loaded_kept_trans [OF k Cons.IH [OF this]] show ?thesis .
  next
    case (Some err)
    with Cons.prems s k show ?thesis by simp
  qed
qed

lemma update_pubs_kept:
  "update_pubs ratio repo_index repo_keys cutoff pubs (n, l) = (e, n', l') \<Longrightarrow> loaded_kept l l'"
proof (induction pubs arbitrary: n l)
  case Nil
  then show ?case by (simp add: loaded_kept_refl)
next
  case (Cons p pubs)
  let ?rest = "\<lambda>st. update_pubs ratio repo_index repo_keys cutoff pubs st"
  consider (skip) "?rest (n, l) = (e, n', l')"
    | (stop) "l' = l"
    | (rows) locs e1 n1 l1 where "update_rows (scholar_id p) locs (n, l) = (e1, n1, l1)"
        "(\<exists>err. e1 = Some err \<and> l' = l1) \<or> (e1 = None \<and> ?rest (n1, l1) = (e, n', l'))"
    using Cons.prems
    by (auto split: if_splits sum.splits option.splits prod.splits)
  then show ?case
  proof cases
    case skip
    then show ?thesis by (rule Cons.IH)
  next
    case stop
    then show ?thesis by (simp add: loaded_kept_refl)
  next
    case rows
    from update_rows_kept [OF rows(1)] have k: "loaded_kept l l1" .
    from rows(2) show ?thesis
    proof
      assume "\<exists>err. e1 = Some err \<and> l' = l1"
      with k show ?thesis by auto
    next
      assume "e1 = None \<and> ?rest (n1, l1) = (e, n', l')"
      then have "loaded_kept l1 l'" using Cons.IH by blast
      with k show ?thesis by (rule loaded_kept_trans)
    qed
  qed
qed

text \<open>
  C9. Whatever \<open>update_scholar_ids\<close> returns or raises, the tables it leaves have the
  same paths and the same rows at the same positions, a header that lost no field, and
  in every row every cell but that of \<open>Scholar ID\<close> as it was.
\<close>

theorem update_scholar_ids_frame:
  "loaded_kept loaded (snd (update_scholar_ids ratio loaded repo_index pubs cutoff))"
proof -
  obtain e n l where r: "update_pubs ratio repo_index (map fst repo_index) cutoff pubs (0, loaded) = (e, n, l)"
    by (cases "update_pubs ratio repo_index (map fst repo_index) cutoff pubs (0, loaded)") auto
  from update_pubs_kept [OF r] r show ?thesis
    by (cases e) (simp_all add: update_scholar_ids_def)
qed

section \<open>The added column\<close>

lemma map_of_setdefault:
  "\<exists>v. map_of (dict_setdefault k d al) k = Some v"
  by (cases "map_of al k") (auto simp: dict_setdefault_def map_of_eq_None_iff)

lemma column_complete_ensure:
  "column_complete t \<Longrightarrow> column_complete (ensure_column t)"
  by (cases t) (auto simp: column_complete_def ensure_column_def map_of_setdefault)

lemma column_complete_set_scholar_id:
  assumes "column_complete (headers, rows)"
  shows "column_complete (headers, set_scholar_id sid i rows)"
proof -
  have "\<exists>v. map_of (cells r) ''Scholar ID'' = Some v"
    if "''Scholar ID'' \<in> set headers" and "r \<in> set (set_scholar_id sid i rows)" for r
  proof (cases "r \<in> set rows")
    case True
    with assms that show ?thesis by (auto simp: column_complete_def)
  next
    case False
    with that(2) have "r = (rows ! i)\<lparr>cells := AList.update ''Scholar ID'' sid (cells (rows ! i))\<rparr>"
      unfolding set_scholar_id_def by (auto dest: set_update_subset_insert [THEN subsetD])
    then show ?thesis by (simp add: update_conv')
  qed
  then show ?thesis by (simp add: column_complete_def)
qed

lemma update_row_complete:
  assumes "update_row sid loc (n, l) = (e, n', l')"
    and "\<forall>t. map_of l q = Some t \<longrightarrow> column_complete t"
  shows "\<forall>t. map_of l' q = Some t \<longrightarrow> column_complete t"
proof -
  obtain p i where loc: "loc = (p, i)" by (cases loc)
  show ?thesis
  proof (cases "map_of l p")
    case None
    with assms loc show ?thesis by (simp add: update_row_def)
  next
    case (Some t)
    obtain headers rows where ec: "ensure_column t = (headers, rows)" by (cases "ensure_column t")
    from assms loc Some ec
    have l': "l' = AList.update p (headers, rows) l \<or>
          l' = AList.update p (headers, set_scholar_id sid i rows) l"
      by (auto simp: update_row_def split: if_splits)
    show ?thesis
    proof (cases "q = p")
      case False
      with l' assms(2) show ?thesis by (auto simp: update_conv')
    next
      case True
      with Some assms(2) have "column_complete t" by simp
      then have "column_complete (headers, rows)"
        using column_complete_ensure [of t] ec by simp
      with l' True column_complete_set_scholar_id show ?thesis
        by (auto simp: update_conv')
    qed
  qed
qed

lemma update_rows_complete:
  "update_rows sid locs (n, l) = (e, n', l') \<Longrightarrow>
   \<forall>t. map_of l q = Some t \<longrightarrow> column_complete t \<Longrightarrow>
   \<forall>t. map_of l' q = Some t \<longrightarrow> column_complete t"
proof (induction locs arbitrary: n l)
  case Nil
  then show ?case by simp
next
  case (Cons loc locs)
  obtain e1 n1 l1 where s: "update_row sid loc (n, l) = (e1, n1, l1)"
    by (cases "update_row sid loc (n, l)") auto
  have k: "\<forall>t. map_of l1 q = Some t \<longrightarrow> column_complete t"
    using update_row_complete [OF s Cons.prems(2)] .
  show ?case
  proof (cases e1)
    case None
    with Cons.prems s have "update_rows sid locs (n1, l1) = (e, n', l')" by simp
    from Cons.IH [OF this k] show ?thesis .
  next
    case (Some err)
    with Cons.prems s k show ?thesis by simp
  qed
qed

lemma update_pubs_complete:
  "update_pubs ratio repo_index repo_keys cutoff pubs (n, l) = (e, n', l') \<Longrightarrow>
   \<forall>t. map_of l q = Some t \<longrightarrow> column_complete t \<Longrightarrow>
   \<forall>t. map_of l' q = Some t \<longrightarrow> column_complete t"
proof (induction pubs arbitrary: n l)
  case Nil
  then show ?case by simp
next
  case (Cons p pubs)
  let ?rest = "\<lambda>st. update_pubs ratio repo_index repo_keys cutoff pubs st"
  consider (skip) "?rest (n, l) = (e, n', l')"
    | (stop) "l' = l"
    | (rows) locs e1 n1 l1 where "update_rows (scholar_id p) locs (n, l) = (e1, n1, l1)"
        "(\<exists>err. e1 = Some err \<and> l' = l1) \<or> (e1 = None \<and> ?rest (n1, l1) = (e, n', l'))"
    using Cons.prems(1)
    by (auto split: if_splits sum.splits option.splits prod.splits)
  then show ?case
  proof cases
    case skip
    then show ?thesis using Cons.IH Cons.prems(2) by blast
  next
    case stop
    then show ?thesis using Cons.prems(2) by simp
  next
    case rows
    from update_rows_complete [OF rows(1) Cons.prems(2)]
    have k: "\<forall>t. map_of l1 q = Some t \<longrightarrow> column_complete t" .
    from rows(2) show ?thesis
    proof
      assume "\<exists>err. e1 = Some err \<and> l' = l1"
      with k show ?thesis by auto
    next
      assume "e1 = None \<and> ?rest (n1, l1) = (e, n', l')"
      then show ?thesis using Cons.IH k by blast
    qed
  qed
qed

text \<open>
  C8. When \<open>update_scholar_ids\<close> has added \<open>Scholar ID\<close> to the header of a table, the
  table has as many rows as before and each of them has a \<open>Scholar ID\<close> cell.
\<close>

theorem schema_add_safe:
  assumes "map_of loaded p = Some (headers, rows)" and "''Scholar ID'' \<notin> set headers"
    and "map_of (snd (update_scholar_ids ratio loaded repo_index pubs cutoff)) p = Some (headers', rows')"
    and "''Scholar ID'' \<in> set headers'"
  shows "length rows' = length rows \<and>
         (\<forall>r \<in> set rows'. \<exists>v. map_of (cells r) ''Scholar ID'' = Some v)"
proof -
  obtain e n l where r: "update_pubs ratio repo_index (map fst repo_index) cutoff pubs (0, loaded) = (e, n, l)"
    by (cases "update_pubs ratio repo_index (map fst repo_index) cutoff pubs (0, loaded)") auto
  then have l: "snd (update_scholar_ids ratio loaded repo_index pubs cutoff) = l"
    by (cases e) (simp_all add: update_scholar_ids_def)
  have "\<forall>t. map_of loaded p = Some t \<longrightarrow> column_complete t"
    using assms(1,2) by (simp add: column_complete_def)
  from update_pubs_complete [OF r this] assms(3,4) l
  have "\<forall>r \<in> set rows'. \<exists>v. map_of (cells r) ''Scholar ID'' = Some v"
    by (simp add: column_complete_def)
  moreover from loaded_kept_map_of [OF update_pubs_kept [OF r] assms(1)] assms(3) l
  have "length rows' = length rows"
    by (auto simp: table_kept_def dest: list_all2_lengthD)
  ultimately show ?thesis by simp
qed

section \<open>The properties on the example data\<close>

theorem build_repo_title_index_wf_witness:
  "example_index =
     [(''graphcoloringrevisited'', [(''a.csv'', 0), (''b.csv'', 0)]),
      (''sparsematrixinversion'', [(''a.csv'', 1)])] \<and>
   index_wf example_index example_loaded"
proof -
  have "example_index =
     [(''graphcoloringrevisited'', [(''a.csv'', 0), (''b.csv'', 0)]),
      (''sparsematrixinversion'', [(''a.csv'', 1)])]"
    by code_simp
  with build_repo_title_index_wf [of example_disk "[''a.csv'', ''b.csv'']"]
  show ?thesis by (simp add: example_index_def example_loaded_def)
qed

theorem update_scholar_ids_frame_witness:
  "fst (update_scholar_ids SequenceMatcher_ratio example_loaded example_index [pubA, pubB] (94/100)) = Inr 2 \<and>
   loaded_kept example_loaded example_updated"
proof -
  have "fst (update_scholar_ids SequenceMatcher_ratio example_loaded example_index [pubA, pubB] (94/100)) = Inr 2"
    by code_simp
  with update_scholar_ids_frame [of example_loaded SequenceMatcher_ratio example_index "[pubA, pubB]" "94/100"]
  show ?thesis by (simp add: example_updated_def)
qed

theorem schema_add_safe_witness:
  "''Scholar ID'' \<notin> set (fst (the (map_of example_loaded ''a.csv''))) \<and>
   ''Scholar ID'' \<in> set (fst (the (map_of example_updated ''a.csv''))) \<and>
   length (snd (the (map_of example_updated ''a.csv''))) = 2 \<and>
   list_all (\<lambda>r. map_of (cells r) ''Scholar ID'' \<noteq> None)
     (snd (the (map_of example_updated ''a.csv'')))"
proof -
  let ?t = "the (map_of example_loaded ''a.csv'')"
  let ?t' = "the (map_of example_updated ''a.csv'')"
  have "map_of example_loaded ''a.csv'' \<noteq> None" by code_simp
  then have a: "map_of example_loaded ''a.csv'' = Some (fst ?t, snd ?t)" by auto
  have b: "''Scholar ID'' \<notin> set (fst ?t)" by code_simp
  have "map_of example_updated ''a.csv'' \<noteq> None" by code_simp
  then have c: "map_of (snd (update_scholar_ids SequenceMatcher_ratio example_loaded example_index
      [pubA, pubB] (94/100))) ''a.csv'' = Some (fst ?t', snd ?t')"
    by (auto simp: example_updated_def)
  have d: "''Scholar ID'' \<in> set (fst ?t')" by code_simp
  have n: "length (snd ?t) = 2" by code_simp
  from schema_add_safe [OF a b c d] b d n show ?thesis
    by (simp add: list_all_iff)
qed

section \<open>Running the identifier update twice\<close>

lemma update_pubs_Cons:
  "update_pubs ratio repo_index repo_keys cutoff (p # pubs) st =
     (case pub_locs ratio repo_index repo_keys cutoff p of
        Inl e \<Rightarrow> (Some e, st)
      | Inr locs \<Rightarrow>
          (case update_rows (scholar_id p) locs st of
             (Some e, st') \<Rightarrow> (Some e, st')
           | (None, st') \<Rightarrow> update_pubs ratio repo_index repo_keys cutoff pubs st'))"
  by (simp add: pub_locs_def split: sum.splits option.splits)

lemma ensure_column_present:
  "''Scholar ID'' \<in> set headers \<Longrightarrow> ensure_column (headers, rows) = (headers, rows)"
  by (simp add: ensure_column_def)

lemma update_row_settled:
  assumes "settled l ((p, i), sid)"
  shows "update_row sid (p, i) (n, l) = (None, n, l)"
proof -
  from assms obtain headers rows where t: "map_of l p = Some (headers, rows)"
    and h: "''Scholar ID'' \<in> set headers" and i: "i < length rows"
    and v: "strip (dict_get (cells (rows ! i)) ''Scholar ID'' []) = sid"
    by (auto simp: settled_def split: option.splits)
  from t have "AList.update p (headers, rows) l = l" by (rule update_triv)
  with t h i v show ?thesis by (simp add: update_row_def ensure_column_present)
qed

lemma dict_get_update: "dict_get (AList.update k v al) k d = v"
  by (simp add: dict_get_def update_conv')

lemma column_header_ensure: "''Scholar ID'' \<in> set (fst (ensure_column t))"
  by (cases t) (simp add: ensure_column_def)

lemma length_ensure_column: "length (snd (ensure_column t)) = length (snd t)"
  by (cases t) (simp add: ensure_column_def)

lemma update_row_settles:
  assumes "update_row sid (p, i) (n, l) = (None, n', l')" and "strip sid = sid"
  shows "settled l' ((p, i), sid)"
proof -
  from assms(1) obtain t where t: "map_of l p = Some t"
    by (auto simp: update_row_def split: option.splits)
  obtain headers rows where ec: "ensure_column t = (headers, rows)" by (cases "ensure_column t")
  have h: "''Scholar ID'' \<in> set headers" using column_header_ensure [of t] ec by simp
  from assms(1) t ec have i: "i < length rows"
    by (auto simp: update_row_def split: if_splits)
  show ?thesis
  proof (cases "strip (dict_get (cells (rows ! i)) ''Scholar ID'' []) = sid")
    case True
    with assms(1) t ec i have "l' = AList.update p (headers, rows) l"
      by (simp add: update_row_def)
    with h i True show ?thesis by (simp add: settled_def update_conv')
  next
    case False
    with assms(1) t ec i have "l' = AList.update p (headers, set_scholar_id sid i rows) l"
      by (simp add: update_row_def)
    with h i assms(2) show ?thesis
      by (simp add: settled_def update_conv' set_scholar_id_def dict_get_update)
  qed
qed

lemma update_row_keeps_settled:
  assumes u: "update_row sid (p, i) (n, l) = (e, n', l')"
    and s: "settled l ((q, j), sid')"
    and c: "(q, j) = (p, i) \<longrightarrow> sid' = sid"
  shows "settled l' ((q, j), sid')"
proof (cases "(q, j) = (p, i)")
  case True
  with c s have "settled l ((p, i), sid)" by simp
  from update_row_settled [OF this, of n] u have "l' = l" by simp
  with s show ?thesis by simp
next
  case False
  show ?thesis
  proof (cases "q = p")
    case qp: False
    have "map_of l' q = map_of l q"
    proof (cases "map_of l p")
      case None
      with u show ?thesis by (simp add: update_row_def)
    next
      case (Some t)
      with u qp show ?thesis
        by (auto simp: update_row_def update_conv' split: prod.splits if_splits)
    qed
    with s show ?thesis by (simp add: settled_def)
  next
    case True
    with False have ji: "j \<noteq> i" by simp
    from s True obtain headers rows where t: "map_of l p = Some (headers, rows)"
      and h: "''Scholar ID'' \<in> set headers" and j: "j < length rows"
      and v: "strip (dict_get (cells (rows ! j)) ''Scholar ID'' []) = sid'"
      by (auto simp: settled_def split: option.splits)
    from u t h have "l' = AList.update p (headers, rows) l \<or>
        l' = AList.update p (headers, set_scholar_id sid i rows) l"
      by (auto simp: update_row_def ensure_column_present split: if_splits)
    with h j v ji True show ?thesis
      by (auto simp: settled_def update_conv' set_scholar_id_def)
  qed
qed

lemma functional_subset: "functional W \<Longrightarrow> V \<subseteq> W \<Longrightarrow> functional V"
  unfolding functional_def by blast

lemma update_rows_settles:
  assumes "update_rows sid locs (n, l) = (None, n', l')" and "strip sid = sid"
    and "\<forall>w \<in> D. settled l w"
    and "functional (D \<union> (\<lambda>loc. (loc, sid)) ` set locs)"
  shows "\<forall>w \<in> D \<union> (\<lambda>loc. (loc, sid)) ` set locs. settled l' w"
  using assms
proof (induction locs arbitrary: n l D)
  case Nil
  then show ?case by simp
next
  case (Cons loc locs)
  obtain p i where loc: "loc = (p, i)" by (cases loc)
  obtain e1 n1 l1 where s: "update_row sid (p, i) (n, l) = (e1, n1, l1)"
    by (cases "update_row sid (p, i) (n, l)") auto
  with Cons.prems(1) loc have e1: "e1 = None" and rest: "update_rows sid locs (n1, l1) = (None, n', l')"
    by (auto split: option.splits)
  let ?D = "insert ((p, i), sid) D"
  have "settled l1 ((p, i), sid)"
    using update_row_settles [OF s [unfolded e1] Cons.prems(2)] .
  moreover have "settled l1 w" if "w \<in> D" for w
  proof -
    obtain q j sid' where w: "w = ((q, j), sid')" by (cases w) auto
    have "(q, j) = (p, i) \<longrightarrow> sid' = sid"
    proof
      assume qj: "(q, j) = (p, i)"
      have a: "((q, j), sid') \<in> D \<union> (\<lambda>loc. (loc, sid)) ` set (loc # locs)"
        using that w by simp
      have b: "((p, i), sid) \<in> D \<union> (\<lambda>loc. (loc, sid)) ` set (loc # locs)"
        by (simp add: loc)
      from Cons.prems(4) [unfolded functional_def, rule_format, OF a b] qj
      show "sid' = sid" by simp
    qed
    from update_row_keeps_settled [OF s _ this] Cons.prems(3) that w show ?thesis by blast
  qed
  ultimately have D: "\<forall>w \<in> ?D. settled l1 w" by blast
  have eq: "?D \<union> (\<lambda>loc. (loc, sid)) ` set locs = D \<union> (\<lambda>loc. (loc, sid)) ` set (loc # locs)"
    by (auto simp: loc)
  have f: "functional (?D \<union> (\<lambda>loc. (loc, sid)) ` set locs)"
    using Cons.prems(4) by (simp only: eq)
  from Cons.IH [OF rest Cons.prems(2) D f] show ?case by (simp only: eq)
qed

lemma update_rows_settled:
  "\<forall>loc \<in> set locs. settled l (loc, sid) \<Longrightarrow> update_rows sid locs (n, l) = (None, n, l)"
proof (induction locs)
  case Nil
  then show ?case by simp
next
  case (Cons loc locs)
  obtain p i where loc: "loc = (p, i)" by (cases loc)
  from Cons.prems have "settled l ((p, i), sid)" by (simp add: loc)
  then have step: "update_row sid loc (n, l) = (None, n, l)"
    unfolding loc by (rule update_row_settled)
  from Cons.prems have "update_rows sid locs (n, l) = (None, n, l)"
    by (intro Cons.IH) simp
  with step show ?case by simp
qed

lemma update_pubs_settles:
  assumes "update_pubs ratio repo_index (map fst repo_index) cutoff pubs (n, l) = (None, n', l')"
    and "trimmed_ids pubs"
    and "\<forall>w \<in> D. settled l w"
    and "functional (D \<union> set (concat (map (pub_writes ratio repo_index cutoff) pubs)))"
  shows "\<forall>w \<in> D \<union> set (concat (map (pub_writes ratio repo_index cutoff) pubs)). settled l' w"
  using assms
proof (induction pubs arbitrary: n l D)
  case Nil
  then show ?case by simp
next
  case (Cons p pubs)
  from Cons.prems(1) obtain locs n1 l1
    where locs: "pub_locs ratio repo_index (map fst repo_index) cutoff p = Inr locs"
      and rows: "update_rows (scholar_id p) locs (n, l) = (None, n1, l1)"
      and rest: "update_pubs ratio repo_index (map fst repo_index) cutoff pubs (n1, l1) = (None, n', l')"
    unfolding update_pubs_Cons by (auto split: sum.splits prod.splits option.splits)
  have w: "set (pub_writes ratio repo_index cutoff p) = (\<lambda>loc. (loc, scholar_id p)) ` set locs"
    by (simp add: pub_writes_def locs)
  let ?D = "D \<union> (\<lambda>loc. (loc, scholar_id p)) ` set locs"
  have tr: "strip (scholar_id p) = scholar_id p" "trimmed_ids pubs"
    using Cons.prems(2) by (simp_all add: trimmed_ids_def)
  have f1: "functional ?D"
    by (rule functional_subset [OF Cons.prems(4)]) (auto simp: w)
  have D: "\<forall>w \<in> ?D. settled l1 w"
    using update_rows_settles [OF rows tr(1) Cons.prems(3) f1] .
  have eq: "?D \<union> set (concat (map (pub_writes ratio repo_index cutoff) pubs)) =
      D \<union> set (concat (map (pub_writes ratio repo_index cutoff) (p # pubs)))"
    by (auto simp: w)
  have f: "functional (?D \<union> set (concat (map (pub_writes ratio repo_index cutoff) pubs)))"
    using Cons.prems(4) by (simp only: eq)
  from Cons.IH [OF rest tr(2) D f] show ?case by (simp only: eq)
qed

lemma update_pubs_settled:
  assumes "update_pubs ratio repo_index (map fst repo_index) cutoff pubs (n0, l0) = (None, n1, l1)"
    and "\<forall>w \<in> set (concat (map (pub_writes ratio repo_index cutoff) pubs)). settled l w"
  shows "update_pubs ratio repo_index (map fst repo_index) cutoff pubs (n, l) = (None, n, l)"
  using assms
proof (induction pubs arbitrary: n0 l0)
  case Nil
  then show ?case by simp
next
  case (Cons p pubs)
  from Cons.prems(1) obtain locs n2 l2
    where locs: "pub_locs ratio repo_index (map fst repo_index) cutoff p = Inr locs"
      and rest: "update_pubs ratio repo_index (map fst repo_index) cutoff pubs (n2, l2) = (None, n1, l1)"
    unfolding update_pubs_Cons by (auto split: sum.splits prod.splits option.splits)
  have "\<forall>loc \<in> set locs. settled l (loc, scholar_id p)"
    using Cons.prems(2) by (simp add: pub_writes_def locs)
  then have "update_rows (scholar_id p) locs (n, l) = (None, n, l)"
    by (rule update_rows_settled)
  moreover have "update_pubs ratio repo_index (map fst repo_index) cutoff pubs (n, l) = (None, n, l)"
    using Cons.IH [OF rest] Cons.prems(2) by simp
  ultimately show ?case unfolding update_pubs_Cons by (simp add: locs)
qed

text \<open>
  C1 (amended). When a call of \<open>update_scholar_ids\<close> has returned, a second call with the
  same feed on the tables it left returns 0 and leaves them as they are, provided the
  identifiers of the feed are trimmed and any two records of the feed that are sent to
  the same row carry the same identifier.
\<close>

theorem update_scholar_ids_idempotent:
  assumes "update_scholar_ids ratio loaded repo_index pubs cutoff = (Inr n, loaded')"
    and "trimmed_ids pubs" and "consistent_ids ratio repo_index cutoff pubs"
  shows "update_scholar_ids ratio loaded' repo_index pubs cutoff = (Inr 0, loaded')"
proof -
  from assms(1)
  have first: "update_pubs ratio repo_index (map fst repo_index) cutoff pubs (0, loaded) = (None, n, loaded')"
    by (auto simp: update_scholar_ids_def split: prod.splits option.splits)
  have f: "functional ({} \<union> set (concat (map (pub_writes ratio repo_index cutoff) pubs)))"
    using assms(3) by (simp only: consistent_ids_def Un_empty_left)
  have e: "\<forall>w \<in> {}. settled loaded w" by simp
  from update_pubs_settles [OF first assms(2) e f]
  have "\<forall>w \<in> set (concat (map (pub_writes ratio repo_index cutoff) pubs)). settled loaded' w"
    by simp
  from update_pubs_settled [OF first this, of 0] show ?thesis
    by (simp add: update_scholar_ids_def)
qed

text \<open>
  C1 as stated fails: two records of the feed with the same normalized title and different
  identifiers overwrite each other's cells, in the second call as in the first.
\<close>

theorem update_twice_counterexample:
  "fst (update_scholar_ids SequenceMatcher_ratio example_loaded example_index [pubA, pubD] (94/100)) = Inr 4 \<and>
   fst (update_scholar_ids SequenceMatcher_ratio
          (snd (update_scholar_ids SequenceMatcher_ratio example_loaded example_index [pubA, pubD] (94/100)))
          example_index [pubA, pubD] (94/100)) = Inr 4"
  by code_simp

theorem update_scholar_ids_idempotent_witness:
  "update_scholar_ids SequenceMatcher_ratio example_loaded example_index [pubA, pubB] (94/100) =
     (Inr 2, example_updated) \<and>
   trimmed_ids [pubA, pubB] \<and>
   consistent_ids SequenceMatcher_ratio example_index (94/100) [pubA, pubB] \<and>
   update_scholar_ids SequenceMatcher_ratio example_updated example_index [pubA, pubB] (94/100) =
     (Inr 0, example_updated)"
proof -
  have "fst (update_scholar_ids SequenceMatcher_ratio example_loaded example_index [pubA, pubB] (94/100)) = Inr 2"
    by code_simp
  then have a: "update_scholar_ids SequenceMatcher_ratio example_loaded example_index [pubA, pubB] (94/100) =
     (Inr 2, example_updated)"
    by (simp add: example_updated_def prod_eq_iff)
  have b: "trimmed_ids [pubA, pubB]" by code_simp
  have c: "consistent_ids SequenceMatcher_ratio example_index (94/100) [pubA, pubB]" by code_simp
  from update_scholar_ids_idempotent [OF a b c] a b c show ?thesis by simp
qed

text \<open>
  An identifier with whitespace at an end is written as it is and compared trimmed, so it
  is written again by every call.
\<close>

lemma untrimmed_id_rewritten:
  "fst (update_scholar_ids SequenceMatcher_ratio example_loaded example_index [pubU] (94/100)) = Inr 1 \<and>
   fst (update_scholar_ids SequenceMatcher_ratio
          (snd (update_scholar_ids SequenceMatcher_ratio example_loaded example_index [pubU] (94/100)))
          example_index [pubU] (94/100)) = Inr 1"
  by code_simp

section \<open>Rows shorter or longer than the header\<close>

text \<open>
  C5. A data row with more fields than the header is read without error, its surplus
  fields kept under the key \<open>None\<close>; \<open>update_scholar_ids\<close> works on it; but writing its
  table back raises \<open>ValueError\<close>, after the file was opened for writing and the header
  written.
\<close>

theorem long_row_write_back_raises:
  "read_csv (long_row_disk ''c.csv'') =
     ([''Title''],
      [\<lparr>cells = [(''Title'', ''Graph Coloring Revisited'')], rest_fields = Some [''2020'']\<rparr>]) \<and>
   update_scholar_ids SequenceMatcher_ratio
       (snd (build_repo_title_index long_row_disk [''c.csv'']))
       (fst (build_repo_title_index long_row_disk [''c.csv''])) [pubA] (94/100) =
     (Inr 1,
      [(''c.csv'', [''Title'', ''Scholar ID''],
        [\<lparr>cells = [(''Title'', ''Graph Coloring Revisited''), (''Scholar ID'', ''abc123'')],
          rest_fields = Some [''2020'']\<rparr>])]) \<and>
   main_write_back
       [(''c.csv'', [''Title'', ''Scholar ID''],
        [\<lparr>cells = [(''Title'', ''Graph Coloring Revisited''), (''Scholar ID'', ''abc123'')],
          rest_fields = Some [''2020'']\<rparr>])] =
     (Some ValueError, [(''c.csv'', [[''Title'', ''Scholar ID'']])])"
  by code_simp

lemma fold_update_Some_keys:
  "fst ` set (fold (\<lambda>(k, v). AList.update k (Some v)) kvs d) = fst ` set d \<union> fst ` set kvs"
proof (induction kvs arbitrary: d)
  case Nil
  then show ?case by simp
next
  case (Cons kv kvs)
  obtain k v where kv: "kv = (k, v)" by (cases kv)
  show ?case by (simp add: Cons.IH update_fst_set kv)
qed

lemma fold_update_None_keys:
  "fst ` set (fold (\<lambda>k. AList.update k None) ks d) = fst ` set d \<union> set ks"
  by (induction ks arbitrary: d) (simp_all add: update_fst_set)

lemma fold_update_None_map_of:
  "map_of (fold (\<lambda>k. AList.update k None) ks d) k = (if k \<in> set ks then Some None else map_of d k)"
  by (induction ks arbitrary: d) (auto simp: update_conv')

lemma map_of_or_empty:
  "map_of (map or_empty d) k = map_option (\<lambda>v. case v of None \<Rightarrow> [] | Some s \<Rightarrow> s) (map_of d k)"
  by (induction d) (auto simp: or_empty_def)

lemma fst_or_empty: "fst ` set (map or_empty d) = fst ` set d"
  by (induction d) (auto simp: or_empty_def)

lemma zip_keys: "length r \<le> length fs \<Longrightarrow> fst ` set (zip fs r) = set (take (length r) fs)"
  by (metis list.set_map map_fst_zip_take min.absorb2)

lemma read_row_short:
  assumes "length r \<le> length fieldnames"
  shows "rest_fields (read_row fieldnames r) = None"
    and "fst ` set (cells (read_row fieldnames r)) = set fieldnames"
    and "k \<in> set (drop (length r) fieldnames) \<Longrightarrow> map_of (cells (read_row fieldnames r)) k = Some []"
proof -
  show "rest_fields (read_row fieldnames r) = None"
    using assms by (simp add: read_row_def DictReader_next_def Let_def)
  have "set (take (length r) fieldnames) \<union> set (drop (length r) fieldnames) = set fieldnames"
    by (metis append_take_drop_id set_append)
  then show "fst ` set (cells (read_row fieldnames r)) = set fieldnames"
    using assms
    by (auto simp: read_row_def DictReader_next_def Let_def fst_or_empty fold_update_Some_keys
        fold_update_None_keys zip_keys simp del: set_map)
  show "map_of (cells (read_row fieldnames r)) k = Some []"
    if "k \<in> set (drop (length r) fieldnames)"
  proof -
    from that have "length r < length fieldnames" by (cases "length r < length fieldnames") auto
    with that show ?thesis
      by (simp add: read_row_def DictReader_next_def Let_def map_of_or_empty fold_update_None_map_of)
  qed
qed

lemma short_row_written:
  assumes "length r \<le> length fieldnames"
  shows "\<exists>l. dict_to_list fieldnames (read_row fieldnames r) = Inr l"
  using read_row_short(1,2) [OF assms] by (simp add: dict_to_list_def)

end
